theory Spec2Isabelle
  imports Main "HOL-Library.Sublist"
begin

section \<open>Strings and the library functions the tool calls\<close>

text \<open>
  Python strings are modelled as \<open>string\<close> (lists of characters). The file names and
  tokens of the tool are ASCII; \<open>\d\<close> is modelled on the ASCII digits, and paths
  follow \<open>posixpath\<close>.
\<close>

definition is_digit :: "char \<Rightarrow> bool" where
  "is_digit c = (c \<in> set ''0123456789'')"

definition newline :: char where
  "newline = CHR 0x0A"

definition backslash :: char where
  "backslash = CHR 0x5C"

text \<open>
  \<open>str.replace(old, new)\<close>: every non-overlapping occurrence of \<open>old\<close>, found
  from the left, is replaced by \<open>new\<close>. For an empty \<open>old\<close> Python inserts
  \<open>new\<close> before every character and at the end.
\<close>

function replace_ne :: "string \<Rightarrow> string \<Rightarrow> string \<Rightarrow> string" where
  "replace_ne old new [] = []"
| "replace_ne old new (c # cs) =
     (if old \<noteq> [] \<and> prefix old (c # cs)
      then new @ replace_ne old new (drop (length old) (c # cs))
      else c # replace_ne old new cs)"
  by pat_completeness auto
termination
  by (relation "measure (\<lambda>(old, new, s). length s)") (auto simp: neq_Nil_conv)

definition replace :: "string \<Rightarrow> string \<Rightarrow> string \<Rightarrow> string" where
  "replace old new s =
     (if old = [] then new @ concat (map (\<lambda>c. c # new) s) else replace_ne old new s)"

subsection \<open>Paths (\<open>posixpath\<close>)\<close>

text \<open>\<open>os.path.basename(p)\<close>: what follows the last \<open>/\<close>.\<close>

definition basename :: "string \<Rightarrow> string" where
  "basename p = rev (takeWhile (\<lambda>c. c \<noteq> CHR ''/'') (rev p))"

text \<open>\<open>os.path.join(a, p)\<close> for two components.\<close>

definition join :: "string \<Rightarrow> string \<Rightarrow> string" where
  "join a p =
     (if prefix ''/'' p then p
      else if a = [] \<or> suffix ''/'' a then a @ p
      else a @ ''/'' @ p)"

text \<open>\<open>str.rfind(c)\<close> for a single character: the last index of \<open>c\<close>, or \<open>-1\<close>.\<close>

definition rfind :: "char \<Rightarrow> string \<Rightarrow> int" where
  "rfind c s =
     (if c \<in> set s then int (length s) - 1 - int (length (takeWhile (\<lambda>x. x \<noteq> c) (rev s)))
      else - 1)"

text \<open>
  \<open>os.path.splitext(p)\<close>: split at the last dot of the last component, unless that
  component has only leading dots before it.
\<close>

definition splitext :: "string \<Rightarrow> string \<times> string" where
  "splitext p =
     (let sepIndex = rfind (CHR ''/'') p; dotIndex = rfind (CHR ''.'') p in
      if dotIndex > sepIndex \<and>
         list_ex (\<lambda>c. c \<noteq> CHR ''.'')
           (take (nat (dotIndex - (sepIndex + 1))) (drop (nat (sepIndex + 1)) p))
      then (take (nat dotIndex) p, drop (nat dotIndex) p)
      else (p, []))"

subsection \<open>The regular expressions of the tool\<close>

text \<open>
  The tool uses four regular expressions. Each is modelled by a matcher for exactly
  that expression.

  \<^item> \<open>re.search(lit + r"\d+", s)\<close> for a literal \<open>lit\<close> (\<open>ep_\<close>, \<open>sq_\<close>, \<open>sh_\<close>):
    the leftmost position where \<open>lit\<close> and at least one digit follow; the digit run is
    taken greedily.
\<close>

definition match_lit_digits :: "string \<Rightarrow> string \<Rightarrow> string option" where
  "match_lit_digits lit s =
     (if prefix lit s
      then (let ds = takeWhile is_digit (drop (length lit) s)
            in if ds = [] then None else Some (lit @ ds))
      else None)"

fun search_lit_digits :: "string \<Rightarrow> string \<Rightarrow> string option" where
  "search_lit_digits lit [] = match_lit_digits lit []"
| "search_lit_digits lit (c # cs) =
     (case match_lit_digits lit (c # cs) of
        Some m \<Rightarrow> Some m
      | None \<Rightarrow> search_lit_digits lit cs)"

text \<open>
  \<^item> With \<open>re.IGNORECASE\<close> the letters \<open>v\<close>, \<open>m\<close>, \<open>a\<close> of the patterns match either
    case; \<open>_\<close> and \<open>.\<close> (escaped) match themselves.
\<close>

definition ci_eq :: "string \<Rightarrow> string \<Rightarrow> bool" where
  "ci_eq pat s =
     list_all2 (\<lambda>p c. c = p \<or> (p = CHR ''v'' \<and> c = CHR ''V'') \<or>
                       (p = CHR ''m'' \<and> c = CHR ''M'') \<or> (p = CHR ''a'' \<and> c = CHR ''A'')) pat s"

text \<open>
  \<^item> \<open>$\<close> matches at the end of the string and just before a newline that ends the
    string. What precedes \<open>$\<close> in the patterns ends with a digit or a letter, so the text
    the pattern has to cover is the string without one final newline.
\<close>

definition before_dollar :: "string \<Rightarrow> string" where
  "before_dollar s = (if s \<noteq> [] \<and> last s = newline then butlast s else s)"

text \<open>
  \<^item> \<open>_v\d+\<close> at the end of a text \<open>r\<close>: the digits are the whole final digit run of
    \<open>r\<close> (the character before them is \<open>v\<close>, not a digit). \<open>split_version r\<close> returns
    what precedes \<open>_v\<close> and the digits.
\<close>

definition split_version :: "string \<Rightarrow> (string \<times> string) option" where
  "split_version r =
     (let ds = rev (takeWhile is_digit (rev r));
          a = take (length r - length ds) r
      in if ds \<noteq> [] \<and> 2 \<le> length a \<and> ci_eq ''_v'' (drop (length a - 2) a)
         then Some (take (length a - 2) a, ds) else None)"

text \<open>\<open>\.ma$\<close>: the text before the extension, when the string ends with it.\<close>

definition strip_dot_ma :: "string \<Rightarrow> string option" where
  "strip_dot_ma s =
     (let e = before_dollar s in
      if 3 \<le> length e \<and> ci_eq ''.ma'' (drop (length e - 3) e)
      then Some (take (length e - 3) e) else None)"

text \<open>
  \<open>re.compile(r".*_v\d+\.ma$", re.IGNORECASE).match(fn)\<close>: anchored at the start, and
  \<open>.\<close> does not match a newline.
\<close>

definition version_regex_match :: "string \<Rightarrow> bool" where
  "version_regex_match fn =
     (case strip_dot_ma fn of
        None \<Rightarrow> False
      | Some r \<Rightarrow> (case split_version r of
                    None \<Rightarrow> False
                  | Some (a, ds) \<Rightarrow> newline \<notin> set a))"

text \<open>\<open>re.match(r"^(.*)_v\d+$", base_noext, re.IGNORECASE)\<close>, returning group 1.\<close>

definition match_base_version :: "string \<Rightarrow> string option" where
  "match_base_version b =
     (case split_version (before_dollar b) of
        None \<Rightarrow> None
      | Some (a, ds) \<Rightarrow> if newline \<in> set a then None else Some a)"

text \<open>\<open>int(ds)\<close> on a run of decimal digits; Python integers are unbounded.\<close>

definition digit_val :: "char \<Rightarrow> int" where
  "digit_val c = of_char c - 48"

definition int_of_digits :: "string \<Rightarrow> int" where
  "int_of_digits ds = foldl (\<lambda>n c. 10 * n + digit_val c) 0 ds"

section \<open>Helper functions of the tool\<close>

text \<open>
  \<open>find_token(pattern, path)\<close>. Every call passes a pattern \<open>lit\d+\<close>; the model takes
  the literal.
\<close>

definition find_token :: "string \<Rightarrow> string \<Rightarrow> string option" where
  "find_token lit path = search_lit_digits lit (replace [backslash] ''/'' path)"

text \<open>
  \<open>find_all_ma_files(root_folder)\<close>. The argument of the model is what
  \<open>os.walk(root_folder)\<close> yields: the directories in traversal order, each with its file
  names.
\<close>

definition find_all_ma_files :: "(string \<times> string list) list \<Rightarrow> string list" where
  "find_all_ma_files walk =
     concat (map (\<lambda>(dirpath, filenames).
                    map (join dirpath) (filter version_regex_match filenames)) walk)"

text \<open>\<open>extract_version_number(filename)\<close>: \<open>re.search(r"_v(\d+)\.ma$", ...)\<close>.\<close>

definition extract_version_number :: "string \<Rightarrow> int option" where
  "extract_version_number filename =
     (case strip_dot_ma filename of
        None \<Rightarrow> None
      | Some r \<Rightarrow> (case split_version r of
                    None \<Rightarrow> None
                  | Some (a, ds) \<Rightarrow> Some (int_of_digits ds)))"

text \<open>\<open>select_highest_version(ma_paths)\<close>: the loop carries \<open>best_path\<close> and \<open>best_ver\<close>.\<close>

fun select_loop :: "string option \<Rightarrow> int \<Rightarrow> string list \<Rightarrow> string option" where
  "select_loop best_path best_ver [] = best_path"
| "select_loop best_path best_ver (p # ps) =
     (case extract_version_number (basename p) of
        Some ver \<Rightarrow>
          if ver > best_ver then select_loop (Some p) ver ps
          else select_loop best_path best_ver ps
      | None \<Rightarrow> select_loop best_path best_ver ps)"

definition select_highest_version :: "string list \<Rightarrow> string option" where
  "select_highest_version ma_paths = select_loop None (- 1) ma_paths"

abbreviation ver :: "string \<Rightarrow> int option" where
  "ver p \<equiv> extract_version_number (basename p)"

section \<open>The operation behind the button: \<open>clone_latest\<close>\<close>

subsection \<open>More library functions\<close>

text \<open>\<open>str.strip()\<close> removes white space at both ends.\<close>

definition is_space :: "char \<Rightarrow> bool" where
  "is_space c =
     (c \<in> set [CHR '' '', CHR 0x09, CHR 0x0A, CHR 0x0B, CHR 0x0C, CHR 0x0D,
                 CHR 0x1C, CHR 0x1D, CHR 0x1E, CHR 0x1F])"

definition strip :: "string \<Rightarrow> string" where
  "strip s = rev (dropWhile is_space (rev (dropWhile is_space s)))"

text \<open>\<open>path.split('/')\<close> and \<open>'/'.join(comps)\<close>.\<close>

fun split_sep :: "string \<Rightarrow> string list" where
  "split_sep [] = [[]]"
| "split_sep (c # cs) =
     (if c = CHR ''/'' then [] # split_sep cs
      else (case split_sep cs of x # xs \<Rightarrow> (c # x) # xs | [] \<Rightarrow> [[c]]))"

fun join_sep :: "string list \<Rightarrow> string" where
  "join_sep [] = []"
| "join_sep [x] = x"
| "join_sep (x # y # ys) = x @ ''/'' @ join_sep (y # ys)"

text \<open>
  \<open>os.path.normpath(path)\<close>: empty components and \<open>.\<close> are dropped, \<open>..\<close> removes the
  component before it, and exactly two leading slashes are kept.
\<close>

fun norm_comps :: "nat \<Rightarrow> string list \<Rightarrow> string list \<Rightarrow> string list" where
  "norm_comps initial_slashes new_comps [] = new_comps"
| "norm_comps initial_slashes new_comps (component # comps) =
     (if component = [] \<or> component = ''.'' then norm_comps initial_slashes new_comps comps
      else if component \<noteq> ''..'' \<or> (initial_slashes = 0 \<and> new_comps = []) \<or>
              (new_comps \<noteq> [] \<and> last new_comps = ''..'')
      then norm_comps initial_slashes (new_comps @ [component]) comps
      else if new_comps \<noteq> [] then norm_comps initial_slashes (butlast new_comps) comps
      else norm_comps initial_slashes new_comps comps)"

definition normpath :: "string \<Rightarrow> string" where
  "normpath path =
     (if path = [] then ''.''
      else
        let initial_slashes =
              (if prefix ''/'' path
               then (if prefix ''//'' path \<and> \<not> prefix ''///'' path then 2 else 1)
               else (0::nat));
            comps = norm_comps initial_slashes [] (split_sep path);
            p = replicate initial_slashes (CHR ''/'') @ join_sep comps
        in if p = [] then ''.'' else p)"

subsection \<open>The file system and the dialogs\<close>

text \<open>
  The state the operation works on: which paths are directories, what \<open>os.walk\<close>
  lists under a directory, the text of every regular file, and the exception (if any)
  that creating a directory, reading a file or opening a file for writing raises.
  Files are identified by their path strings. \<open>os.walk\<close> is run anew by every call
  of the operation, so the listing is a function of the files there are: \<open>walk w fs p\<close>
  is what \<open>os.walk(p)\<close> yields when the files are \<open>fs\<close>. Nothing is assumed on how the
  listing changes when a file is written. A write that raises leaves the files as they
  were.
\<close>

record world =
  isdir :: "string \<Rightarrow> bool"
  walk :: "(string \<rightharpoonup> string) \<Rightarrow> string \<Rightarrow> (string \<times> string list) list"
  files :: "string \<rightharpoonup> string"
  makedirs_error :: "string \<Rightarrow> string option"
  read_error :: "string \<Rightarrow> string option"
  write_error :: "string \<Rightarrow> string option"

text \<open>The calls that touch the file system or ask the user, in the order made.\<close>

datatype action =
    MakeDirs string
  | AskOverwrite string
  | ReadFile string
  | WriteFile string string

text \<open>Every \<open>messagebox.showerror\<close> of the operation, with what it interpolates.\<close>

datatype error =
    InvalidSource
  | NoDestination
  | SourceTokens "string option" "string option" "string option"
  | DestTokens "string option" "string option" "string option"
  | SameFolder
  | NoCandidates
  | NoLatest
  | PatternMismatch string
  | MakedirsFailed string
  | ReadFailed string string
  | WriteFailed string string

datatype outcome =
    Error error
  | Cancelled
  | Success string string "(string \<times> string) list"

text \<open>How an f-string prints a token that may be \<open>None\<close>.\<close>

definition show_token :: "string option \<Rightarrow> string" where
  "show_token t = (case t of None \<Rightarrow> ''None'' | Some s \<Rightarrow> s)"

text \<open>The text of each error dialog.\<close>

fun message :: "error \<Rightarrow> string" where
  "message InvalidSource = ''Please choose a valid Source Shot folder.''"
| "message NoDestination = ''Please choose a Destination Shot folder.''"
| "message (SourceTokens ep sq sh) =
     ''Source folder must contain ep_###, sq_###, and sh_###.'' @ [newline] @
     ''Found: ep='' @ show_token ep @ '', sq='' @ show_token sq @ '', sh='' @ show_token sh"
| "message (DestTokens ep sq sh) =
     ''Destination folder must contain ep_###, sq_###, and sh_###.'' @ [newline] @
     ''Found: ep='' @ show_token ep @ '', sq='' @ show_token sq @ '', sh='' @ show_token sh"
| "message SameFolder = ''Source and Destination folders must differ.''"
| "message NoCandidates =
     ''No Maya ASCII files matching '' @ [CHR 0x27] @ ''*_v###.ma'' @ [CHR 0x27] @
     '' found under source folder.''"
| "message NoLatest = ''Could not determine the latest-version .ma file.''"
| "message (PatternMismatch latest_fn) =
     ''Latest .ma filename does not match pattern '' @ [CHR 0x27] @ ''*_v###.ma'' @
     [CHR 0x27] @ '':'' @ [newline] @ ''  '' @ latest_fn"
| "message (MakedirsFailed e) = ''Could not create Destination folder:'' @ [newline] @ e"
| "message (ReadFailed latest_ma e) =
     ''Failed to read source .ma:'' @ [newline] @ latest_ma @ [newline] @ e"
| "message (WriteFailed dest_fullpath e) =
     ''Failed to write new .ma:'' @ [newline] @ dest_fullpath @ [newline] @ e"

text \<open>Python's truth value of a token: \<open>None\<close> and the empty string are false.\<close>

definition truthy :: "string option \<Rightarrow> bool" where
  "truthy t = (case t of None \<Rightarrow> False | Some s \<Rightarrow> s \<noteq> [])"

text \<open>\<open>open(p, "r").read()\<close> and \<open>open(p, "w").write(content)\<close>.\<close>

definition read_file :: "world \<Rightarrow> string \<Rightarrow> string + string" where
  "read_file w p =
     (case read_error w p of
        Some e \<Rightarrow> Inl e
      | None \<Rightarrow> (case files w p of
                   None \<Rightarrow> Inl ''No such file or directory''
                 | Some content \<Rightarrow> Inr content))"

definition write_file :: "world \<Rightarrow> string \<Rightarrow> string \<Rightarrow> string + world" where
  "write_file w p content =
     (case write_error w p of
        Some e \<Rightarrow> Inl e
      | None \<Rightarrow> Inr (w\<lparr>files := (files w)(p \<mapsto> content)\<rparr>))"

text \<open>\<open>os.makedirs(p, exist_ok=True)\<close>.\<close>

definition makedirs :: "world \<Rightarrow> string \<Rightarrow> string + world" where
  "makedirs w p =
     (case makedirs_error w p of
        Some e \<Rightarrow> Inl e
      | None \<Rightarrow> Inr (w\<lparr>isdir := (isdir w)(p := True)\<rparr>))"

subsection \<open>The content rewrite (the five \<open>content.replace\<close> calls)\<close>

text \<open>The six tokens found in the two folder paths.\<close>

record tokens =
  old_ep :: string
  new_ep :: string
  old_sq :: string
  new_sq :: string
  old_sh :: string
  new_sh :: string

definition rewrite_content ::
  "tokens \<Rightarrow> string \<Rightarrow> string \<Rightarrow> string \<Rightarrow> string \<Rightarrow> string \<Rightarrow> string" where
  "rewrite_content t latest_fn new_fn base_noext base_before_ver content =
     (let content = replace (old_ep t) (new_ep t) content;
          content = replace (old_sq t) (new_sq t) content;
          content = replace (old_sh t) (new_sh t) content;
          content = replace latest_fn new_fn content;
          content = replace base_noext (base_before_ver @ ''_v001'') content
      in content)"

subsection \<open>The steps of \<open>clone_latest\<close>\<close>

type_synonym result = "outcome \<times> action list \<times> world"

text \<open>
  Step 5: read the latest file, rewrite, write. \<open>trace\<close> holds the calls made so far.
\<close>

definition read_rewrite_write ::
  "world \<Rightarrow> action list \<Rightarrow> tokens \<Rightarrow> string \<times> string \<Rightarrow>
   string \<Rightarrow> string \<Rightarrow> string \<Rightarrow> string \<Rightarrow> result" where
  "read_rewrite_write w trace t paths latest_fn new_fn base_noext base_before_ver =
     (let latest_ma = fst paths; dest_fullpath = snd paths in
      case read_file w latest_ma of
        Inl e \<Rightarrow> (Error (ReadFailed latest_ma e), trace @ [ReadFile latest_ma], w)
      | Inr content \<Rightarrow>
          (let content' = rewrite_content t latest_fn new_fn base_noext base_before_ver content;
               trace' = trace @ [ReadFile latest_ma, WriteFile dest_fullpath content']
           in case write_file w dest_fullpath content' of
                Inl e \<Rightarrow> (Error (WriteFailed dest_fullpath e), trace', w)
              | Inr w' \<Rightarrow>
                  (Success latest_ma dest_fullpath
                     [(old_ep t, new_ep t), (old_sq t, new_sq t), (old_sh t, new_sh t)],
                   trace', w')))"

text \<open>
  Steps 3 and 4, from the selected path on: the new file name, the destination folder,
  the overwrite question. \<open>answer\<close> is what the user answers if asked.
\<close>

definition name_and_copy ::
  "world \<Rightarrow> bool \<Rightarrow> tokens \<Rightarrow> string \<Rightarrow> string \<Rightarrow> result" where
  "name_and_copy w answer t dest_root latest_ma =
     (let latest_fn = basename latest_ma;
          base_noext = fst (splitext latest_fn)
      in case match_base_version base_noext of
           None \<Rightarrow> (Error (PatternMismatch latest_fn), [], w)
         | Some base_before_ver \<Rightarrow>
             (let new_fn = base_before_ver @ ''_v001.ma'' in
              case makedirs w dest_root of
                Inl e \<Rightarrow> (Error (MakedirsFailed e), [MakeDirs dest_root], w)
              | Inr w1 \<Rightarrow>
                  (let dest_fullpath = join dest_root new_fn in
                   if files w1 dest_fullpath \<noteq> None \<and> \<not> answer
                   then (Cancelled, [MakeDirs dest_root, AskOverwrite new_fn], w1)
                   else read_rewrite_write w1
                          ([MakeDirs dest_root] @
                           (if files w1 dest_fullpath \<noteq> None then [AskOverwrite new_fn] else []))
                          t (latest_ma, dest_fullpath)
                          latest_fn new_fn base_noext base_before_ver)))"

text \<open>
  Steps 1 to 3, on the stripped entry texts: the checks on the two folders, the scan and
  the selection. They read the file system and change nothing.
\<close>

definition validate_and_select :: "world \<Rightarrow> string \<Rightarrow> string \<Rightarrow> error + tokens \<times> string" where
  "validate_and_select w source_root dest_root =
     (if source_root = [] \<or> \<not> isdir w source_root then Inl InvalidSource
      else if dest_root = [] then Inl NoDestination
      else
        let src_norm = replace [backslash] ''/'' source_root;
            dst_norm = replace [backslash] ''/'' dest_root;
            old_ep = find_token ''ep_'' src_norm;
            old_sq = find_token ''sq_'' src_norm;
            old_sh = find_token ''sh_'' src_norm
        in if \<not> (truthy old_ep \<and> truthy old_sq \<and> truthy old_sh)
           then Inl (SourceTokens old_ep old_sq old_sh)
           else
             let new_ep = find_token ''ep_'' dst_norm;
                 new_sq = find_token ''sq_'' dst_norm;
                 new_sh = find_token ''sh_'' dst_norm
             in if \<not> (truthy new_ep \<and> truthy new_sq \<and> truthy new_sh)
                then Inl (DestTokens new_ep new_sq new_sh)
                else if normpath source_root = normpath dest_root then Inl SameFolder
                else
                  let all_ma = find_all_ma_files (walk w (files w) source_root)
                  in if all_ma = [] then Inl NoCandidates
                     else
                       (case select_highest_version all_ma of
                          None \<Rightarrow> Inl NoLatest
                        | Some latest_ma \<Rightarrow>
                            if latest_ma = [] then Inl NoLatest
                            else Inr (\<lparr>old_ep = the old_ep, new_ep = the new_ep,
                                       old_sq = the old_sq, new_sq = the new_sq,
                                       old_sh = the old_sh, new_sh = the new_sh\<rparr>,
                                      latest_ma)))"

text \<open>The whole operation, from the two entry fields.\<close>

definition clone_latest :: "world \<Rightarrow> string \<Rightarrow> string \<Rightarrow> bool \<Rightarrow> result" where
  "clone_latest w src_entry dst_entry answer =
     (let source_root = strip src_entry;
          dest_root = strip dst_entry
      in case validate_and_select w source_root dest_root of
           Inl e \<Rightarrow> (Error e, [], w)
         | Inr (t, latest_ma) \<Rightarrow> name_and_copy w answer t dest_root latest_ma)"

section \<open>Notions used to state the properties\<close>

text \<open>
  Inserting \<open>new\<close> into a text cannot create an occurrence of \<open>x\<close>: \<open>new\<close> is not
  empty, its first character does not occur in \<open>x\<close> after the first position, and no
  non-empty end of \<open>new\<close> begins \<open>x\<close> or begins with \<open>x\<close>.
\<close>

definition cannot_form :: "string \<Rightarrow> string \<Rightarrow> bool" where
  "cannot_form x new =
     (new \<noteq> [] \<and> hd new \<notin> set (tl x) \<and>
      list_all (\<lambda>v. v = [] \<or> (\<not> prefix v x \<and> \<not> prefix x v)) (suffixes new))"

text \<open>
  The decimal numeral of a number, as it is written in a file name: \<open>decimal 10\<close> is
  \<open>''10''\<close>. It is defined from the ten digit characters, apart from \<open>int_of_digits\<close>.
\<close>

definition digit_char :: "nat \<Rightarrow> char" where
  "digit_char k = ''0123456789'' ! k"

fun decimal :: "nat \<Rightarrow> string" where
  "decimal n =
     (if n < 10 then [digit_char n] else decimal (n div 10) @ [digit_char (n mod 10)])"

declare decimal.simps [simp del]

text \<open>
  The five replacements as an ordered list of pairs (old, new), and a list of pairs
  applied from the left, each to the whole result of the one before.
\<close>

definition substitutions ::
  "tokens \<Rightarrow> string \<Rightarrow> string \<Rightarrow> string \<Rightarrow> string \<Rightarrow> (string \<times> string) list" where
  "substitutions t latest_fn new_fn base_noext base_before_ver =
     [(old_ep t, new_ep t), (old_sq t, new_sq t), (old_sh t, new_sh t),
      (latest_fn, new_fn), (base_noext, base_before_ver @ ''_v001'')]"

definition apply_substitutions :: "(string \<times> string) list \<Rightarrow> string \<Rightarrow> string" where
  "apply_substitutions ps content = foldl (\<lambda>c (old, new). replace old new c) content ps"

text \<open>
  The rewrite as the specification words its fifth step: the old file name without
  extension and without version is replaced by the old base name with \<open>_v001\<close> appended.
  The first four steps are those of \<open>rewrite_content\<close>.
\<close>

definition rewrite_as_specified ::
  "tokens \<Rightarrow> string \<Rightarrow> string \<Rightarrow> string \<Rightarrow> string \<Rightarrow> string" where
  "rewrite_as_specified t latest_fn new_fn base_before_ver content =
     apply_substitutions
       [(old_ep t, new_ep t), (old_sq t, new_sq t), (old_sh t, new_sh t),
        (latest_fn, new_fn), (base_before_ver, base_before_ver @ ''_v001'')] content"

text \<open>
  \<open>x\<close> and \<open>new\<close> do not overlap: \<open>x\<close> is not empty, no non-empty proper end of
  \<open>x\<close> begins \<open>new\<close> or begins with \<open>new\<close>, and no non-empty end of \<open>new\<close> begins
  \<open>x\<close> or begins with \<open>x\<close>. So neither string occurs in the other, and no end of one is
  a beginning of the other.
\<close>

definition overlap_free :: "string \<Rightarrow> string \<Rightarrow> bool" where
  "overlap_free x new =
     (x \<noteq> [] \<and>
      list_all (\<lambda>b. b = [] \<or> b = x \<or> (\<not> prefix b new \<and> \<not> prefix new b)) (suffixes x) \<and>
      list_all (\<lambda>v. v = [] \<or> (\<not> prefix v x \<and> \<not> prefix x v)) (suffixes new))"

text \<open>
  No replacement of the list can bring \<open>x\<close> back: each one either replaces a string that
  contains \<open>x\<close> (and so finds nothing to replace where \<open>x\<close> does not occur), or replaces
  a non-empty string by one that does not overlap \<open>x\<close>.
\<close>

definition not_rebuilt :: "string \<Rightarrow> (string \<times> string) list \<Rightarrow> bool" where
  "not_rebuilt x ps =
     list_all (\<lambda>(old, new). sublist x old \<or> (old \<noteq> [] \<and> overlap_free x new)) ps"

text \<open>\<open>sep.join(parts)\<close>.\<close>

fun join_with :: "string \<Rightarrow> string list \<Rightarrow> string" where
  "join_with sep [] = []"
| "join_with sep [x] = x"
| "join_with sep (x # y # ys) = x @ sep @ join_with sep (y # ys)"

text \<open>
  An old string is never re-created along a list of replacements: every old string of
  the list is non-empty and no new string of the list can form \<open>x\<close>.
\<close>

definition never_recreated :: "string \<Rightarrow> (string \<times> string) list \<Rightarrow> bool" where
  "never_recreated x ps = list_all (\<lambda>(old, new). old \<noteq> [] \<and> cannot_form x new) ps"

text \<open>
  Occurrences of \<open>old\<close> that lie across an end of a piece \<open>m\<close> of the text: what has
  to stand before \<open>m\<close> for an occurrence that ends inside \<open>m\<close>, and what has to follow
  \<open>m\<close> for an occurrence that begins inside \<open>m\<close>.
\<close>

definition overhang_before :: "string \<Rightarrow> string \<Rightarrow> string list" where
  "overhang_before old m =
     map (\<lambda>k. take k old) (filter (\<lambda>k. prefix (drop k old) m) [1..<length old])"

definition overhang_after :: "string \<Rightarrow> string \<Rightarrow> string list" where
  "overhang_after old m =
     map (\<lambda>k. drop k old) (filter (\<lambda>k. suffix (take k old) m) [1..<length old])"

text \<open>No occurrence of \<open>old\<close> can lie across an end of the piece \<open>m\<close>.\<close>

definition stays_whole :: "string \<Rightarrow> string \<Rightarrow> bool" where
  "stays_whole old m =
     (old \<noteq> [] \<and> length old \<le> Suc (length m) \<and>
      overhang_before old m = [] \<and> overhang_after old m = [])"

text \<open>The calls that read or write a file.\<close>

definition touches_file :: "action \<Rightarrow> bool" where
  "touches_file a = (case a of ReadFile p \<Rightarrow> True | WriteFile p c \<Rightarrow> True | _ \<Rightarrow> False)"

text \<open>
  A small file system for the examples: the shot folder of the scenario with two versions
  of the lighting scene, and a folder whose path has no shot token.
\<close>

definition studio :: world where
  "studio =
     \<lparr>isdir = (\<lambda>p. p = ''/show/ep_01/sq_010/sh_020/work'' \<or> p = ''/show/ep_01/sq_010/work''),
      walk = (\<lambda>fs p. if p = ''/show/ep_01/sq_010/sh_020/work''
                   then [(p, [''lighting_v002.ma'', ''lighting_v003.ma'', ''notes.txt''])]
                   else []),
      files = [''/show/ep_01/sq_010/sh_020/work/lighting_v002.ma'' \<mapsto> ''file lighting_v002'',
               ''/show/ep_01/sq_010/sh_020/work/lighting_v003.ma'' \<mapsto>
                 ''file ep_01_sq_010_sh_020_lighting_v003; cache_v003''],
      makedirs_error = (\<lambda>p. None),
      read_error = (\<lambda>p. None),
      write_error = (\<lambda>p. None)\<rparr>"

text \<open>The same file system with a destination file already there.\<close>

definition studio_done :: world where
  "studio_done =
     studio\<lparr>files := (files studio)
       (''/show/ep_02/sq_020/sh_030/work/lighting_v001.ma'' \<mapsto> ''an earlier copy'')\<rparr>"

section \<open>Properties of \<open>replace\<close>\<close>


lemma replace_ne_absent: "\<not> sublist old s \<Longrightarrow> replace_ne old new s = s"
proof (induction old new s rule: replace_ne.induct)
  case (1 old new)
  then show ?case by simp
next
  case (2 old new c cs)
  from "2.prems" have np: "\<not> prefix old (c # cs)" and ns: "\<not> sublist old cs"
    by (auto simp: sublist_Cons_right)
  with "2.IH"(2) show ?case by simp
qed

lemma replace_absent: "\<not> sublist old s \<Longrightarrow> replace old new s = s"
  by (cases "old = []") (auto simp: replace_def replace_ne_absent)

lemma replace_ne_at_head:
  "old \<noteq> [] \<Longrightarrow> replace_ne old new (old @ v) = new @ replace_ne old new v"
  by (cases old) auto

lemma prefix_short_occurrence:
  assumes "prefix old (u @ old @ v)" "u \<noteq> []"
  shows "prefix old (u @ butlast old)"
proof -
  have lu: "1 \<le> length u" using assms(2) by (cases u) auto
  then have "take (length old - length u) (butlast old) = take (length old - length u) old"
    by (simp add: butlast_conv_take min_def)
  then have "take (length old) (u @ old @ v) = take (length old) (u @ butlast old)"
    by simp
  moreover have "take (length old) (u @ old @ v) = old"
  proof -
    from assms(1) obtain zs where "u @ old @ v = old @ zs" by (auto simp: prefix_def)
    then have "take (length old) (u @ old @ v) = take (length old) (old @ zs)" by simp
    then show ?thesis by simp
  qed
  ultimately have "old = take (length old) (u @ butlast old)" by simp
  then show ?thesis by (metis take_is_prefix)
qed

lemma replace_ne_first_occurrence:
  "old \<noteq> [] \<Longrightarrow> \<not> sublist old (u @ butlast old) \<Longrightarrow>
   replace_ne old new (u @ old @ v) = u @ new @ replace_ne old new v"
proof (induction u)
  case Nil
  then show ?case by (simp add: replace_ne_at_head)
next
  case (Cons c cs)
  have "\<not> prefix old ((c # cs) @ old @ v)"
    using prefix_short_occurrence[of old "c # cs" v] Cons.prems(2)
    by (auto simp del: append.simps)
  moreover have "\<not> sublist old (cs @ butlast old)"
    using Cons.prems(2) by (auto simp: sublist_Cons_right)
  ultimately show ?case using Cons.IH Cons.prems(1) by simp
qed

lemma replace_ne_prefix_back:
  "new \<noteq> [] \<Longrightarrow> hd new \<notin> set p \<Longrightarrow> prefix p (replace_ne old new s) \<Longrightarrow> prefix p s"
proof (induction old new s arbitrary: p rule: replace_ne.induct)
  case (1 old new)
  then show ?case by simp
next
  case (2 old new c cs)
  show ?case
  proof (cases "old \<noteq> [] \<and> prefix old (c # cs)")
    case True
    with "2.prems"(3) have "prefix p (new @ replace_ne old new (drop (length old) (c # cs)))"
      by simp
    with "2.prems"(1,2) have "p = []"
      by (cases p; cases new) auto
    then show ?thesis by simp
  next
    case False
    with "2.prems"(3) have pp: "prefix p (c # replace_ne old new cs)" by auto
    show ?thesis
    proof (cases p)
      case Nil then show ?thesis by simp
    next
      case (Cons a p')
      with pp have "a = c" "prefix p' (replace_ne old new cs)" by auto
      moreover from Cons "2.prems"(2) have "hd new \<notin> set p'" by simp
      ultimately have "prefix p' cs" using "2.IH"(2)[OF False "2.prems"(1)] by blast
      with Cons \<open>a = c\<close> show ?thesis by simp
    qed
  qed
qed

lemma cannot_form_nonempty: "cannot_form x new \<Longrightarrow> x \<noteq> []"
  by (auto simp: cannot_form_def list_all_iff)

lemma cannot_form_suffix:
  "cannot_form x new \<Longrightarrow> suffix v new \<Longrightarrow> v \<noteq> [] \<Longrightarrow> \<not> prefix v x \<and> \<not> prefix x v"
  by (auto simp: cannot_form_def list_all_iff)

lemma not_sublist_new_append:
  assumes cf: "cannot_form x new" and t: "\<not> sublist x t"
  shows "\<not> sublist x (new @ t)"
proof
  assume "sublist x (new @ t)"
  then consider "sublist x new" | "sublist x t"
    | x1 x2 where "x = x1 @ x2" "suffix x1 new" "prefix x2 t"
    by (auto simp: sublist_append)
  then show False
  proof cases
    case 1
    then obtain p q where "new = p @ x @ q" by (auto simp: sublist_def)
    then have "suffix (x @ q) new" by (simp add: suffix_def)
    moreover have "x @ q \<noteq> []" using cannot_form_nonempty[OF cf] by simp
    ultimately show False using cannot_form_suffix[OF cf] by fastforce
  next
    case 2
    with t show False by simp
  next
    case 3
    show False
    proof (cases "x1 = []")
      case True
      with 3 have "prefix x t" by simp
      then have "sublist x t" by (auto simp: prefix_def)
      with t show False by simp
    next
      case False
      with 3 cannot_form_suffix[OF cf, of x1] show False by simp
    qed
  qed
qed

lemma replace_ne_no_new_occurrence:
  "old \<noteq> [] \<Longrightarrow> cannot_form x new \<Longrightarrow>
   (\<And>u v. s = u @ x @ v \<Longrightarrow> prefix old (x @ v)) \<Longrightarrow>
   \<not> sublist x (replace_ne old new s)"
proof (induction old new s rule: replace_ne.induct)
  case (1 old new)
  then show ?case using cannot_form_nonempty by simp
next
  case (2 old new c cs)
  show ?case
  proof (cases "prefix old (c # cs)")
    case True
    have "\<not> sublist x (replace_ne old new (drop (length old) (c # cs)))"
    proof (rule "2.IH"(1))
      show "old \<noteq> [] \<and> prefix old (c # cs)" using True "2.prems"(1) by simp
      show "old \<noteq> []" by fact
      show "cannot_form x new" by fact
      fix u v assume "drop (length old) (c # cs) = u @ x @ v"
      then have "c # cs = (take (length old) (c # cs) @ u) @ x @ v"
        by (metis append.assoc append_take_drop_id)
      then show "prefix old (x @ v)" by (rule "2.prems"(3))
    qed
    then have "\<not> sublist x (new @ replace_ne old new (drop (length old) (c # cs)))"
      by (rule not_sublist_new_append[OF "2.prems"(2)])
    with True "2.prems"(1) show ?thesis by simp
  next
    case False
    have ih: "\<not> sublist x (replace_ne old new cs)"
    proof (rule "2.IH"(2))
      show "\<not> (old \<noteq> [] \<and> prefix old (c # cs))" using False by simp
      show "old \<noteq> []" by fact
      show "cannot_form x new" by fact
      fix u v assume "cs = u @ x @ v"
      then have "c # cs = (c # u) @ x @ v" by simp
      then show "prefix old (x @ v)" by (rule "2.prems"(3))
    qed
    have "\<not> prefix x (c # replace_ne old new cs)"
    proof
      assume px: "prefix x (c # replace_ne old new cs)"
      obtain a x' where x: "x = a # x'"
        using cannot_form_nonempty[OF "2.prems"(2)] by (cases x) auto
      with px have "a = c" "prefix x' (replace_ne old new cs)" by auto
      moreover have "new \<noteq> []" "hd new \<notin> set x'"
        using "2.prems"(2) x by (auto simp: cannot_form_def)
      ultimately have "prefix x' cs" using replace_ne_prefix_back by blast
      with x \<open>a = c\<close> obtain v where "c # cs = [] @ x @ v" by (auto simp: prefix_def)
      then have "prefix old (x @ v)" by (rule "2.prems"(3))
      with \<open>c # cs = [] @ x @ v\<close> False show False by simp
    qed
    with ih False show ?thesis by (simp add: sublist_Cons_right)
  qed
qed

lemma replace_removes_old:
  "old \<noteq> [] \<Longrightarrow> cannot_form old new \<Longrightarrow> \<not> sublist old (replace old new s)"
  using replace_ne_no_new_occurrence[of old old new s] by (simp add: replace_def)

lemma replace_keeps_absent:
  assumes "old \<noteq> []" "cannot_form x new" "\<not> sublist x s"
  shows "\<not> sublist x (replace old new s)"
proof -
  have "\<And>u v. s = u @ x @ v \<Longrightarrow> prefix old (x @ v)"
    using assms(3) by (auto simp: sublist_def)
  from replace_ne_no_new_occurrence[OF assms(1,2) this] assms(1)
  show ?thesis by (simp add: replace_def)
qed

section \<open>Version selection\<close>

subsection \<open>Paths and versions\<close>


lemma basename_no_slash: "CHR ''/'' \<notin> set fn \<Longrightarrow> basename fn = fn"
proof -
  assume "CHR ''/'' \<notin> set fn"
  then have tw: "takeWhile (\<lambda>c. c \<noteq> CHR ''/'') (rev fn) = rev fn"
    by (intro takeWhile_eq_all_conv[THEN iffD2]) auto
  show ?thesis unfolding basename_def tw by simp
qed

lemma basename_append_slash:
  "CHR ''/'' \<notin> set fn \<Longrightarrow> basename (d @ CHR ''/'' # fn) = fn"
proof -
  assume "CHR ''/'' \<notin> set fn"
  then have tw: "takeWhile (\<lambda>c. c \<noteq> CHR ''/'') (rev fn @ CHR ''/'' # rev d) = rev fn"
    by (subst takeWhile_append2) auto
  have "rev (d @ CHR ''/'' # fn) = rev fn @ CHR ''/'' # rev d" by simp
  then show ?thesis unfolding basename_def using tw by simp
qed

lemma basename_join: "CHR ''/'' \<notin> set fn \<Longrightarrow> basename (join d fn) = fn"
proof -
  assume ns: "CHR ''/'' \<notin> set fn"
  then have np: "\<not> prefix ''/'' fn" by (cases fn) auto
  show ?thesis
  proof (cases "d = []")
    case True
    with ns np show ?thesis by (simp add: join_def basename_no_slash)
  next
    case False
    show ?thesis
    proof (cases "suffix ''/'' d")
      case True
      then obtain d' where "d = d' @ ''/''" by (auto simp: suffix_def)
      with ns np show ?thesis by (simp add: join_def basename_append_slash)
    next
      case False
      with ns np \<open>d \<noteq> []\<close> show ?thesis by (simp add: join_def basename_append_slash)
    qed
  qed
qed

lemma int_of_digits_foldl_nonneg:
  "0 \<le> n \<Longrightarrow> list_all is_digit ds \<Longrightarrow> 0 \<le> foldl (\<lambda>n c. 10 * n + digit_val c) n ds"
proof (induction ds arbitrary: n)
  case Nil then show ?case by simp
next
  case (Cons c ds)
  from Cons.prems have "is_digit c" by simp
  then have "0 \<le> digit_val c" by (auto simp: is_digit_def digit_val_def)
  with Cons show ?case by simp
qed

lemma split_version_digits:
  "split_version r = Some (a, ds) \<Longrightarrow> ds \<noteq> [] \<and> list_all is_digit ds"
proof -
  assume "split_version r = Some (a, ds)"
  then have ds: "ds = rev (takeWhile is_digit (rev r))" and ne: "ds \<noteq> []"
    by (auto simp: split_version_def Let_def split: if_splits)
  have "list_all is_digit (takeWhile is_digit (rev r))"
    by (simp add: list_all_iff) (meson set_takeWhileD)
  with ds ne show ?thesis by simp
qed

lemma extract_version_number_nonneg:
  "extract_version_number fn = Some v \<Longrightarrow> 0 \<le> v"
  by (auto simp: extract_version_number_def int_of_digits_def
      split: option.splits dest!: split_version_digits intro: int_of_digits_foldl_nonneg)


lemma select_loop_result:
  "select_loop bp bv ps = r \<Longrightarrow>
     (r = bp \<and> (\<forall>q\<in>set ps. \<forall>w. ver q = Some w \<longrightarrow> w \<le> bv)) \<or>
     (\<exists>xs p ys v. ps = xs @ p # ys \<and> r = Some p \<and> ver p = Some v \<and> bv < v \<and>
        (\<forall>q\<in>set xs. \<forall>w. ver q = Some w \<longrightarrow> w < v) \<and>
        (\<forall>q\<in>set ys. \<forall>w. ver q = Some w \<longrightarrow> w \<le> v))"
proof (induction ps arbitrary: bp bv)
  case Nil
  then show ?case by simp
next
  case (Cons p ps)
  show ?case
  proof (cases "ver p")
    case None
    with Cons.prems have "select_loop bp bv ps = r" by simp
    from Cons.IH[OF this] show ?thesis
    proof
      assume "r = bp \<and> (\<forall>q\<in>set ps. \<forall>w. ver q = Some w \<longrightarrow> w \<le> bv)"
      with None show ?thesis by auto
    next
      assume "\<exists>xs p ys v. ps = xs @ p # ys \<and> r = Some p \<and> ver p = Some v \<and> bv < v \<and>
        (\<forall>q\<in>set xs. \<forall>w. ver q = Some w \<longrightarrow> w < v) \<and>
        (\<forall>q\<in>set ys. \<forall>w. ver q = Some w \<longrightarrow> w \<le> v)"
      then obtain xs p' ys v where h: "ps = xs @ p' # ys" "r = Some p'" "ver p' = Some v" "bv < v"
        "\<forall>q\<in>set xs. \<forall>w. ver q = Some w \<longrightarrow> w < v"
        "\<forall>q\<in>set ys. \<forall>w. ver q = Some w \<longrightarrow> w \<le> v" by blast
      have "p # ps = (p # xs) @ p' # ys" using h(1) by simp
      moreover have "\<forall>q\<in>set (p # xs). \<forall>w. ver q = Some w \<longrightarrow> w < v" using h(5) None by auto
      ultimately show ?thesis using h(2,3,4,6) by blast
    qed
  next
    case (Some ver0)
    show ?thesis
    proof (cases "ver0 > bv")
      case True
      with Some Cons.prems have "select_loop (Some p) ver0 ps = r" by simp
      from Cons.IH[OF this] show ?thesis
      proof
        assume a: "r = Some p \<and> (\<forall>q\<in>set ps. \<forall>w. ver q = Some w \<longrightarrow> w \<le> ver0)"
        have "p # ps = [] @ p # ps" by simp
        with a Some True show ?thesis by (metis empty_iff list.set(1))
      next
        assume "\<exists>xs p ys v. ps = xs @ p # ys \<and> r = Some p \<and> ver p = Some v \<and> ver0 < v \<and>
          (\<forall>q\<in>set xs. \<forall>w. ver q = Some w \<longrightarrow> w < v) \<and>
          (\<forall>q\<in>set ys. \<forall>w. ver q = Some w \<longrightarrow> w \<le> v)"
        then obtain xs p' ys v where h: "ps = xs @ p' # ys" "r = Some p'" "ver p' = Some v" "ver0 < v"
          "\<forall>q\<in>set xs. \<forall>w. ver q = Some w \<longrightarrow> w < v"
          "\<forall>q\<in>set ys. \<forall>w. ver q = Some w \<longrightarrow> w \<le> v" by blast
        have "p # ps = (p # xs) @ p' # ys" using h(1) by simp
        moreover have "\<forall>q\<in>set (p # xs). \<forall>w. ver q = Some w \<longrightarrow> w < v" using h(4,5) Some by auto
        moreover have "bv < v" using True h(4) by simp
        ultimately show ?thesis using h(2,3,6) by blast
      qed
    next
      case False
      with Some Cons.prems have "select_loop bp bv ps = r" by simp
      from Cons.IH[OF this] show ?thesis
      proof
        assume "r = bp \<and> (\<forall>q\<in>set ps. \<forall>w. ver q = Some w \<longrightarrow> w \<le> bv)"
        with Some False show ?thesis by auto
      next
        assume "\<exists>xs p ys v. ps = xs @ p # ys \<and> r = Some p \<and> ver p = Some v \<and> bv < v \<and>
          (\<forall>q\<in>set xs. \<forall>w. ver q = Some w \<longrightarrow> w < v) \<and>
          (\<forall>q\<in>set ys. \<forall>w. ver q = Some w \<longrightarrow> w \<le> v)"
        then obtain xs p' ys v where h: "ps = xs @ p' # ys" "r = Some p'" "ver p' = Some v" "bv < v"
          "\<forall>q\<in>set xs. \<forall>w. ver q = Some w \<longrightarrow> w < v"
          "\<forall>q\<in>set ys. \<forall>w. ver q = Some w \<longrightarrow> w \<le> v" by blast
        have "p # ps = (p # xs) @ p' # ys" using h(1) by simp
        moreover have "\<forall>q\<in>set (p # xs). \<forall>w. ver q = Some w \<longrightarrow> w < v" using h(4,5) Some False by auto
        ultimately show ?thesis using h(2,3,4,6) by blast
      qed
    qed
  qed
qed

lemma select_highest_version_example:
  "select_highest_version
     (find_all_ma_files [(d, [''scene_v1.ma'', ''scene_v10.ma'', ''scene_v2.ma''])]) =
   Some (join d ''scene_v10.ma'')"
proof -
  have m: "version_regex_match ''scene_v1.ma''" "version_regex_match ''scene_v10.ma''"
    "version_regex_match ''scene_v2.ma''"
    by code_simp+
  have v: "extract_version_number ''scene_v1.ma'' = Some 1"
    "extract_version_number ''scene_v10.ma'' = Some 10"
    "extract_version_number ''scene_v2.ma'' = Some 2"
    by code_simp+
  have b: "basename (join d ''scene_v1.ma'') = ''scene_v1.ma''"
    "basename (join d ''scene_v10.ma'') = ''scene_v10.ma''"
    "basename (join d ''scene_v2.ma'') = ''scene_v2.ma''"
    by (simp_all add: basename_join)
  show ?thesis
    unfolding find_all_ma_files_def select_highest_version_def
    using m by (simp add: b v)
qed

lemma select_highest_version_Some:
  assumes "select_highest_version ps = Some p"
  shows "\<exists>xs ys v. ps = xs @ p # ys \<and> ver p = Some v \<and>
           (\<forall>q\<in>set xs. \<forall>w. ver q = Some w \<longrightarrow> w < v) \<and>
           (\<forall>q\<in>set ys. \<forall>w. ver q = Some w \<longrightarrow> w \<le> v)"
proof -
  from assms have "select_loop None (- 1) ps = Some p"
    by (simp add: select_highest_version_def)
  from select_loop_result[OF this] show ?thesis by auto
qed

lemma select_highest_version_None:
  assumes "select_highest_version ps = None"
  shows "\<forall>q\<in>set ps. ver q = None"
proof -
  from assms have "select_loop None (- 1) ps = None"
    by (simp add: select_highest_version_def)
  from select_loop_result[OF this]
  have le: "\<forall>q\<in>set ps. \<forall>w. ver q = Some w \<longrightarrow> w \<le> - 1" by auto
  show ?thesis
  proof
    fix q assume q: "q \<in> set ps"
    show "ver q = None"
    proof (cases "ver q")
      case None then show ?thesis .
    next
      case (Some w)
      with le q have "w \<le> - 1" by blast
      moreover from Some have "0 \<le> w" by (rule extract_version_number_nonneg)
      ultimately show ?thesis by simp
    qed
  qed
qed

section \<open>Token extraction\<close>


lemma match_lit_digits_append_None:
  assumes m: "match_lit_digits lit s = None" and ne: "s \<noteq> []"
    and r: "rest \<noteq> []" "\<not> is_digit (hd rest)" "hd rest \<notin> set (tl lit)"
  shows "match_lit_digits lit (s @ rest) = None"
proof (cases "prefix lit (s @ rest)")
  case False
  then show ?thesis by (simp add: match_lit_digits_def)
next
  case True
  show ?thesis
  proof (cases "length lit \<le> length s")
    case le: True
    with True have p: "prefix lit s"
      by (auto simp: prefix_append dest: prefix_length_le)
    with m have tw: "takeWhile is_digit (drop (length lit) s) = []"
      by (auto simp: match_lit_digits_def Let_def split: if_splits)
    have "takeWhile is_digit (drop (length lit) s @ rest) = []"
    proof (cases "drop (length lit) s")
      case Nil
      with r show ?thesis by (cases rest) auto
    next
      case (Cons a as)
      with tw have "\<not> is_digit a" by (auto split: if_splits)
      with Cons show ?thesis by simp
    qed
    moreover from le have "drop (length lit) (s @ rest) = drop (length lit) s @ rest"
      by simp
    ultimately show ?thesis unfolding match_lit_digits_def Let_def by presburger
  next
    case gt: False
    from True obtain zs where zs: "s @ rest = lit @ zs" by (auto simp: prefix_def)
    from gt have "length s < length lit" by simp
    define k where "k = drop (length s) lit"
    from zs have "take (length s) (s @ rest) = take (length s) (lit @ zs)" by simp
    with \<open>length s < length lit\<close> have "s = take (length s) lit" by simp
    then have "lit = s @ k" unfolding k_def by (metis append_take_drop_id)
    moreover from \<open>length s < length lit\<close> have "k \<noteq> []" unfolding k_def by simp
    moreover have "rest = k @ zs"
    proof -
      from zs have "drop (length s) (s @ rest) = drop (length s) (lit @ zs)" by simp
      with \<open>length s < length lit\<close> show ?thesis unfolding k_def by simp
    qed
    ultimately have k: "lit = s @ k" "k \<noteq> []" "rest = k @ zs" by blast+
    then have "hd rest = hd k" by (cases k) auto
    moreover from k ne have "hd k \<in> set (tl lit)" by (cases k; cases s) auto
    ultimately show ?thesis using r(3) by simp
  qed
qed

lemma search_lit_digits_skip:
  assumes r: "rest \<noteq> []" "\<not> is_digit (hd rest)" "hd rest \<notin> set (tl lit)"
  shows "search_lit_digits lit pre = None \<Longrightarrow>
         search_lit_digits lit (pre @ rest) = search_lit_digits lit rest"
proof (induction pre)
  case Nil
  then show ?case by simp
next
  case (Cons c cs)
  from Cons.prems have m: "match_lit_digits lit (c # cs) = None"
    and s: "search_lit_digits lit cs = None"
    by (auto split: option.splits)
  have "match_lit_digits lit ((c # cs) @ rest) = None"
    by (rule match_lit_digits_append_None[OF m _ r]) simp
  with Cons.IH[OF s] show ?case by simp
qed

lemma takeWhile_digit_stop: "post = [] \<or> \<not> is_digit (hd post) \<Longrightarrow> takeWhile is_digit post = []"
  by (cases post) auto

lemma tokens_at_head:
  assumes "post = [] \<or> \<not> is_digit (hd post)"
  shows "search_lit_digits ''ep_'' (''ep_12/sq_034/sh_5'' @ post) = Some ''ep_12''"
    "search_lit_digits ''sq_'' (''ep_12/sq_034/sh_5'' @ post) = Some ''sq_034''"
    "search_lit_digits ''sh_'' (''ep_12/sq_034/sh_5'' @ post) = Some ''sh_5''"
  using takeWhile_digit_stop[OF assms]
  by (simp_all add: match_lit_digits_def is_digit_def)

lemma replace_ne_removes_char:
  "c \<notin> set new \<Longrightarrow> c \<notin> set (replace_ne [c] new s)"
  by (induction "[c]" new s rule: replace_ne.induct) auto

lemma normalize_idem:
  "replace [backslash] ''/'' (replace [backslash] ''/'' p) = replace [backslash] ''/'' p"
proof -
  have "backslash \<notin> set (replace [backslash] ''/'' p)"
    using replace_ne_removes_char[of backslash "''/''" p]
    by (simp add: replace_def backslash_def)
  then have "\<not> sublist [backslash] (replace [backslash] ''/'' p)"
    by (auto simp: sublist_def)
  then show ?thesis by (rule replace_absent)
qed

text \<open>
  C4 (as amended). When the normalised path is \<open>pre @ ''ep_12/sq_034/sh_5'' @ post\<close>,
  \<open>pre\<close> holds no earlier match of any of the three patterns and \<open>post\<close> does not go
  on with a digit, the three tokens found are exactly \<open>ep_12\<close>, \<open>sq_034\<close> and \<open>sh_5\<close>,
  digits as written. Each token is the first match of its own pattern.
\<close>

theorem C4_tokens_of_path:
  assumes "replace [backslash] ''/'' path = pre @ ''ep_12/sq_034/sh_5'' @ post"
    and "search_lit_digits ''ep_'' pre = None"
    and "search_lit_digits ''sq_'' pre = None"
    and "search_lit_digits ''sh_'' pre = None"
    and "post = [] \<or> \<not> is_digit (hd post)"
  shows "find_token ''ep_'' path = Some ''ep_12'' \<and>
         find_token ''sq_'' path = Some ''sq_034'' \<and>
         find_token ''sh_'' path = Some ''sh_5''"
proof -
  let ?rest = "''ep_12/sq_034/sh_5'' @ post"
  have r: "?rest \<noteq> []" "\<not> is_digit (hd ?rest)" by (simp_all add: is_digit_def)
  have "search_lit_digits ''ep_'' (pre @ ?rest) = search_lit_digits ''ep_'' ?rest"
    by (rule search_lit_digits_skip[OF r _ assms(2)]) simp
  moreover have "search_lit_digits ''sq_'' (pre @ ?rest) = search_lit_digits ''sq_'' ?rest"
    by (rule search_lit_digits_skip[OF r _ assms(3)]) simp
  moreover have "search_lit_digits ''sh_'' (pre @ ?rest) = search_lit_digits ''sh_'' ?rest"
    by (rule search_lit_digits_skip[OF r _ assms(4)]) simp
  ultimately show ?thesis
    unfolding find_token_def assms(1) using tokens_at_head[OF assms(5)] by simp
qed

theorem C4_tokens_of_path_witness:
  "find_token ''ep_'' (''C:'' @ [backslash] @ ''show'' @ [backslash] @ ''ep_12/sq_034/sh_5/work'')
     = Some ''ep_12'' \<and>
   find_token ''sq_'' (''C:'' @ [backslash] @ ''show'' @ [backslash] @ ''ep_12/sq_034/sh_5/work'')
     = Some ''sq_034'' \<and>
   find_token ''sh_'' (''C:'' @ [backslash] @ ''show'' @ [backslash] @ ''ep_12/sq_034/sh_5/work'')
     = Some ''sh_5''"
proof -
  have n: "replace [backslash] ''/''
             (''C:'' @ [backslash] @ ''show'' @ [backslash] @ ''ep_12/sq_034/sh_5/work'') =
           ''C:/show/'' @ ''ep_12/sq_034/sh_5'' @ ''/work''"
    by code_simp
  have s: "search_lit_digits ''ep_'' ''C:/show/'' = None"
    "search_lit_digits ''sq_'' ''C:/show/'' = None"
    "search_lit_digits ''sh_'' ''C:/show/'' = None"
    by code_simp+
  have p: "''/work'' = [] \<or> \<not> is_digit (hd ''/work'')" by (simp add: is_digit_def)
  from C4_tokens_of_path[OF n s p] show ?thesis .
qed

text \<open>
  The claim as written fails: a path may contain \<open>ep_12/sq_034/sh_5\<close> and an earlier
  match (here \<open>ep_1\<close> inside \<open>step_1\<close>), and the first match is what is returned.
\<close>

theorem C4_counterexample:
  "sublist ''ep_12/sq_034/sh_5'' (replace [backslash] ''/'' ''/show/step_1/ep_12/sq_034/sh_5'') \<and>
   find_token ''ep_'' ''/show/step_1/ep_12/sq_034/sh_5'' = Some ''ep_1'' \<and>
   find_token ''ep_'' ''/show/step_1/ep_12/sq_034/sh_5'' \<noteq> Some ''ep_12''"
  by code_simp

section \<open>The scanned files and the second parse\<close>

lemma ci_eq_v: "ci_eq ''_v'' uv \<longleftrightarrow> uv = ''_v'' \<or> uv = ''_V''"
  by (auto simp: ci_eq_def list_all2_Cons1)

lemma ci_eq_ma:
  "ci_eq ''.ma'' ext \<longleftrightarrow>
   (\<exists>m a. ext = [CHR ''.'', m, a] \<and> (m = CHR ''m'' \<or> m = CHR ''M'') \<and>
          (a = CHR ''a'' \<or> a = CHR ''A''))"
  by (auto simp: ci_eq_def list_all2_Cons1)

lemma ci_eq_length: "ci_eq pat s \<Longrightarrow> length s = length pat"
  by (auto simp: ci_eq_def dest: list_all2_lengthD)

lemma takeWhile_all_then_stop:
  "list_all P xs \<Longrightarrow> \<not> P y \<Longrightarrow> takeWhile P (xs @ y # ys) = xs"
  by (induction xs) auto

lemma split_version_intro:
  assumes "ci_eq ''_v'' uv" "ds \<noteq> []" "list_all is_digit ds"
  shows "split_version (a @ uv @ ds) = Some (a, ds)"
proof -
  from assms(1) obtain v where uv: "uv = [CHR ''_'', v]" and v: "\<not> is_digit v"
    by (auto simp: ci_eq_v is_digit_def)
  have "rev (a @ uv @ ds) = rev ds @ v # CHR ''_'' # rev a" by (simp add: uv)
  moreover have "list_all is_digit (rev ds)" using assms(3) by (simp add: list_all_iff)
  ultimately have tw: "takeWhile is_digit (rev (a @ uv @ ds)) = rev ds"
    using takeWhile_all_then_stop[of is_digit "rev ds" v "CHR ''_'' # rev a"] v by simp
  show ?thesis
    unfolding split_version_def tw Let_def using assms(1,2) by (simp add: ci_eq_length)
qed

lemma split_version_elim:
  assumes "split_version r = Some (a, ds)"
  shows "\<exists>uv. r = a @ uv @ ds \<and> ci_eq ''_v'' uv \<and> ds \<noteq> [] \<and> list_all is_digit ds"
proof -
  define ds' where "ds' = rev (takeWhile is_digit (rev r))"
  define a' where "a' = take (length r - length ds') r"
  from assms have h: "ds' \<noteq> []" "2 \<le> length a'" "ci_eq ''_v'' (drop (length a' - 2) a')"
    "a = take (length a' - 2) a'" "ds = ds'"
    unfolding split_version_def Let_def ds'_def[symmetric] a'_def[symmetric]
    by (auto split: if_splits)
  have "suffix ds' r"
    unfolding ds'_def by (metis suffix_to_prefix rev_rev_ident takeWhile_is_prefix)
  then have "r = a' @ ds'"
    unfolding a'_def by (auto simp: suffix_def)
  moreover have "a' = a @ drop (length a' - 2) a'" using h(4) by simp
  ultimately have "r = a @ drop (length a' - 2) a' @ ds" using h(5) by (metis append.assoc)
  moreover have "ds \<noteq> [] \<and> list_all is_digit ds"
    using assms by (rule split_version_digits)
  ultimately show ?thesis using h(3) by blast
qed

lemma before_dollar_newline: "before_dollar (s @ [newline]) = s"
  by (simp add: before_dollar_def)

lemma before_dollar_other: "s \<noteq> [] \<Longrightarrow> last s \<noteq> newline \<Longrightarrow> before_dollar s = s"
  by (simp add: before_dollar_def)

lemma strip_dot_ma_intro:
  assumes "ci_eq ''.ma'' ext" "t = [] \<or> t = [newline]"
  shows "strip_dot_ma (r @ ext @ t) = Some r"
proof -
  from assms(1) have l: "length ext = 3" by (auto dest: ci_eq_length)
  from assms(1) have "last ext \<noteq> newline" "ext \<noteq> []"
    by (auto simp: ci_eq_ma newline_def)
  then have "before_dollar (r @ ext) = r @ ext"
    by (intro before_dollar_other) auto
  moreover have "before_dollar ((r @ ext) @ [newline]) = r @ ext"
    by (rule before_dollar_newline)
  ultimately have "before_dollar (r @ ext @ t) = r @ ext" using assms(2) by auto
  then show ?thesis
    unfolding strip_dot_ma_def Let_def using assms(1) l by simp
qed

lemma before_dollar_cases: "s = before_dollar s \<or> s = before_dollar s @ [newline]"
  by (cases s rule: rev_cases) (auto simp: before_dollar_def)

lemma strip_dot_ma_elim:
  assumes "strip_dot_ma s = Some r"
  shows "\<exists>ext t. s = r @ ext @ t \<and> ci_eq ''.ma'' ext \<and> (t = [] \<or> t = [newline])"
proof -
  define e where "e = before_dollar s"
  from assms have h: "3 \<le> length e" "ci_eq ''.ma'' (drop (length e - 3) e)"
    "r = take (length e - 3) e"
    unfolding strip_dot_ma_def Let_def e_def[symmetric] by (auto split: if_splits)
  have "e = r @ drop (length e - 3) e" using h(3) by simp
  moreover have "s = e \<or> s = e @ [newline]" unfolding e_def by (rule before_dollar_cases)
  ultimately have "s = r @ drop (length e - 3) e @ [] \<or> s = r @ drop (length e - 3) e @ [newline]"
    by (metis append.assoc append_Nil2)
  with h(2) show ?thesis by blast
qed

text \<open>What the pattern of the scan accepts.\<close>

lemma version_regex_match_iff:
  "version_regex_match fn \<longleftrightarrow>
   (\<exists>a uv ds ext t. fn = a @ uv @ ds @ ext @ t \<and> newline \<notin> set a \<and> ci_eq ''_v'' uv \<and>
      ds \<noteq> [] \<and> list_all is_digit ds \<and> ci_eq ''.ma'' ext \<and> (t = [] \<or> t = [newline]))"
proof
  assume "version_regex_match fn"
  then obtain r a ds where h: "strip_dot_ma fn = Some r" "split_version r = Some (a, ds)"
    "newline \<notin> set a"
    by (auto simp: version_regex_match_def split: option.splits)
  from strip_dot_ma_elim[OF h(1)] obtain ext t where
    e: "fn = r @ ext @ t" "ci_eq ''.ma'' ext" "t = [] \<or> t = [newline]" by blast
  from split_version_elim[OF h(2)] obtain uv where
    v: "r = a @ uv @ ds" "ci_eq ''_v'' uv" "ds \<noteq> []" "list_all is_digit ds" by blast
  from e(1) v(1) have "fn = a @ uv @ ds @ ext @ t" by simp
  with h(3) e(2,3) v(2,3,4) show "\<exists>a uv ds ext t. fn = a @ uv @ ds @ ext @ t \<and> newline \<notin> set a \<and>
      ci_eq ''_v'' uv \<and> ds \<noteq> [] \<and> list_all is_digit ds \<and> ci_eq ''.ma'' ext \<and>
      (t = [] \<or> t = [newline])" by blast
next
  assume "\<exists>a uv ds ext t. fn = a @ uv @ ds @ ext @ t \<and> newline \<notin> set a \<and> ci_eq ''_v'' uv \<and>
      ds \<noteq> [] \<and> list_all is_digit ds \<and> ci_eq ''.ma'' ext \<and> (t = [] \<or> t = [newline])"
  then obtain a uv ds ext t where h: "fn = a @ uv @ ds @ ext @ t" "newline \<notin> set a"
    "ci_eq ''_v'' uv" "ds \<noteq> []" "list_all is_digit ds" "ci_eq ''.ma'' ext"
    "t = [] \<or> t = [newline]" by blast
  have "strip_dot_ma ((a @ uv @ ds) @ ext @ t) = Some (a @ uv @ ds)"
    by (rule strip_dot_ma_intro[OF h(6,7)])
  moreover have "split_version (a @ uv @ ds) = Some (a, ds)"
    by (rule split_version_intro[OF h(3,4,5)])
  ultimately show "version_regex_match fn"
    using h(1,2) by (simp add: version_regex_match_def)
qed

lemma basename_append_dir: "CHR ''/'' \<in> set fn \<Longrightarrow> basename (x @ fn) = basename fn"
proof -
  assume "CHR ''/'' \<in> set fn"
  then have "takeWhile (\<lambda>c. c \<noteq> CHR ''/'') (rev fn @ rev x) =
             takeWhile (\<lambda>c. c \<noteq> CHR ''/'') (rev fn)"
    by (intro takeWhile_append1[of "CHR ''/''"]) auto
  then show ?thesis by (simp add: basename_def)
qed

lemma basename_join_any: "basename (join d fn) = basename fn"
proof (cases "CHR ''/'' \<in> set fn")
  case True
  have "join d fn = fn \<or> join d fn = d @ fn \<or> join d fn = (d @ ''/'') @ fn"
    by (auto simp: join_def)
  then show ?thesis
  proof (elim disjE)
    assume "join d fn = fn" then show ?thesis by simp
  next
    assume "join d fn = d @ fn"
    then show ?thesis by (simp only: basename_append_dir[OF True])
  next
    assume "join d fn = (d @ ''/'') @ fn"
    then show ?thesis by (simp only: basename_append_dir[OF True])
  qed
next
  case False
  then show ?thesis by (simp add: basename_join basename_no_slash)
qed

lemma basename_keeps_tail:
  assumes "CHR ''/'' \<notin> set tail"
  shows "basename (a @ tail) = basename a @ tail"
proof -
  have "takeWhile (\<lambda>c. c \<noteq> CHR ''/'') (rev tail @ rev a) =
        rev tail @ takeWhile (\<lambda>c. c \<noteq> CHR ''/'') (rev a)"
    using assms by (intro takeWhile_append2) auto
  then show ?thesis by (simp add: basename_def)
qed

lemma set_basename: "set (basename a) \<subseteq> set a"
  unfolding basename_def by (auto dest: set_takeWhileD)

lemma basename_no_sep: "CHR ''/'' \<notin> set (basename a)"
  unfolding basename_def by (auto dest: set_takeWhileD)

lemma rfind_absent: "c \<notin> set s \<Longrightarrow> rfind c s = - 1"
  by (simp add: rfind_def)

lemma rfind_last:
  assumes "c \<notin> set ys"
  shows "rfind c (xs @ c # ys) = int (length xs)"
proof -
  have "takeWhile (\<lambda>x. x \<noteq> c) (rev ys @ c # rev xs) = rev ys"
    using assms by (intro takeWhile_all_then_stop) (auto simp: list_all_iff)
  then show ?thesis by (simp add: rfind_def)
qed

lemma ci_eq_ma_chars:
  assumes "ci_eq ''.ma'' ext"
  obtains m e where "ext = [CHR ''.'', m, e]" "m \<noteq> CHR ''.''" "e \<noteq> CHR ''.''"
    "m \<noteq> CHR ''/''" "e \<noteq> CHR ''/''" "m \<noteq> newline" "e \<noteq> newline"
proof -
  from assms obtain m e where "ext = [CHR ''.'', m, e]"
    "m = CHR ''m'' \<or> m = CHR ''M''" "e = CHR ''a'' \<or> e = CHR ''A''"
    unfolding ci_eq_ma by blast
  moreover from this have "m \<noteq> CHR ''.''" "e \<noteq> CHR ''.''" "m \<noteq> CHR ''/''" "e \<noteq> CHR ''/''"
    "m \<noteq> newline" "e \<noteq> newline"
    by (auto simp: newline_def)
  ultimately show ?thesis using that by blast
qed

lemma ci_eq_v_chars:
  assumes "ci_eq ''_v'' uv"
  obtains v where "uv = [CHR ''_'', v]" "v \<noteq> CHR ''/''" "\<not> is_digit v"
proof -
  from assms have "uv = ''_v'' \<or> uv = ''_V''" unfolding ci_eq_v .
  then show ?thesis using that by (auto simp: is_digit_def)
qed

lemma digits_no_sep: "list_all is_digit ds \<Longrightarrow> CHR ''/'' \<notin> set ds"
  by (auto simp: list_all_iff is_digit_def)

lemma newline_not_sep: "CHR ''/'' \<noteq> newline" "CHR ''.'' \<noteq> newline"
  by (simp_all add: newline_def)

lemma splitext_versioned:
  assumes sep: "CHR ''/'' \<notin> set a" and uv: "ci_eq ''_v'' uv" and ds: "list_all is_digit ds"
    and ext: "ci_eq ''.ma'' ext" and t: "t = [] \<or> t = [newline]"
  shows "splitext (a @ uv @ ds @ ext @ t) = (a @ uv @ ds, ext @ t)"
proof -
  from ext obtain m e where e: "ext = [CHR ''.'', m, e]" "m \<noteq> CHR ''.''" "e \<noteq> CHR ''.''"
    "m \<noteq> CHR ''/''" "e \<noteq> CHR ''/''"
    by (rule ci_eq_ma_chars)
  from uv obtain v where v: "uv = [CHR ''_'', v]" "v \<noteq> CHR ''/''"
    by (rule ci_eq_v_chars)
  let ?b = "a @ uv @ ds"
  let ?s = "a @ uv @ ds @ ext @ t"
  have tsep: "CHR ''/'' \<notin> set t" "CHR ''.'' \<notin> set t"
    using t newline_not_sep by auto
  have nosep: "CHR ''/'' \<notin> set ?s"
    using sep digits_no_sep[OF ds] tsep(1) e(4,5) v(2) by (auto simp: e(1) v(1))
  have eq: "?s = ?b @ CHR ''.'' # ([m, e] @ t)" by (simp add: e)
  have nodot: "CHR ''.'' \<notin> set ([m, e] @ t)" using e(2,3) tsep(2) by auto
  have dot: "rfind (CHR ''.'') ?s = int (length ?b)"
    unfolding eq by (rule rfind_last[OF nodot])
  have ex: "list_ex (\<lambda>c. c \<noteq> CHR ''.'') ?b"
    by (simp add: v list_ex_iff)
  have tk: "take (length ?b) ?s = ?b" "drop (length ?b) ?s = ext @ t"
    by simp_all
  have n: "nat (int (length ?b) - (- 1 + 1)) = length ?b"
    "nat (- 1 + 1 :: int) = 0" "nat (int (length ?b)) = length ?b"
    by simp_all
  have gt: "int (length ?b) > - 1" by simp
  have "splitext ?s =
        (if int (length ?b) > - 1 \<and> list_ex (\<lambda>c. c \<noteq> CHR ''.'')
              (take (nat (int (length ?b) - (- 1 + 1))) (drop (nat (- 1 + 1)) ?s))
         then (take (nat (int (length ?b))) ?s, drop (nat (int (length ?b))) ?s)
         else (?s, []))"
    unfolding splitext_def rfind_absent[OF nosep] dot Let_def ..
  also have "\<dots> = (?b, ext @ t)"
    unfolding n drop_0 tk using ex gt by (simp only: if_True simp_thms)
  finally show ?thesis .
qed

lemma match_base_version_intro:
  assumes "ci_eq ''_v'' uv" "ds \<noteq> []" "list_all is_digit ds" "newline \<notin> set a"
  shows "match_base_version (a @ uv @ ds) = Some a"
proof -
  have "last (a @ uv @ ds) = last ds" using assms(2) by simp
  moreover have "is_digit (last ds)" using assms(2,3) by (auto simp: list_all_iff)
  ultimately have "last (a @ uv @ ds) \<noteq> newline" by (auto simp: is_digit_def newline_def)
  then have "before_dollar (a @ uv @ ds) = a @ uv @ ds"
    using assms(2) by (intro before_dollar_other) auto
  then show ?thesis
    using split_version_intro[OF assms(1,2,3), of a] assms(4)
    by (simp add: match_base_version_def)
qed

lemma extract_version_number_intro:
  assumes "ci_eq ''_v'' uv" "ds \<noteq> []" "list_all is_digit ds" "ci_eq ''.ma'' ext"
    "t = [] \<or> t = [newline]"
  shows "extract_version_number (a @ uv @ ds @ ext @ t) = Some (int_of_digits ds)"
proof -
  have "strip_dot_ma ((a @ uv @ ds) @ ext @ t) = Some (a @ uv @ ds)"
    by (rule strip_dot_ma_intro[OF assms(4,5)])
  then show ?thesis
    using split_version_intro[OF assms(1,2,3), of a]
    by (simp add: extract_version_number_def)
qed

text \<open>Every path the scan collects has a version and passes the second parse.\<close>

lemma scanned_path_parses:
  assumes "version_regex_match fn"
  shows "\<exists>a v. join d fn \<noteq> [] \<and> ver (join d fn) = Some v \<and>
           match_base_version (fst (splitext (basename (join d fn)))) = Some a"
proof -
  from assms obtain a uv ds ext t where h: "fn = a @ uv @ ds @ ext @ t" "newline \<notin> set a"
    "ci_eq ''_v'' uv" "ds \<noteq> []" "list_all is_digit ds" "ci_eq ''.ma'' ext"
    "t = [] \<or> t = [newline]"
    unfolding version_regex_match_iff by blast
  from h(6) obtain m e where e: "ext = [CHR ''.'', m, e]" "m \<noteq> CHR ''/''" "e \<noteq> CHR ''/''"
    by (rule ci_eq_ma_chars)
  from h(3) obtain v where v: "uv = [CHR ''_'', v]" "v \<noteq> CHR ''/''"
    by (rule ci_eq_v_chars)
  have "CHR ''/'' \<notin> set t" using h(7) newline_not_sep by auto
  then have "CHR ''/'' \<notin> set (uv @ ds @ ext @ t)"
    using digits_no_sep[OF h(5)] e(2,3) v(2) by (auto simp: e(1) v(1))
  then have b: "basename (join d fn) = basename a @ uv @ ds @ ext @ t"
    unfolding basename_join_any h(1) by (rule basename_keeps_tail)
  have nl: "newline \<notin> set (basename a)" using h(2) set_basename by blast
  have "fn \<noteq> []" using h(1,4) by simp
  then have "join d fn \<noteq> []" by (auto simp: join_def)
  moreover have "ver (join d fn) = Some (int_of_digits ds)"
    unfolding b by (rule extract_version_number_intro[OF h(3,4,5,6,7)])
  moreover have "match_base_version (fst (splitext (basename (join d fn)))) = Some (basename a)"
    unfolding b splitext_versioned[OF basename_no_sep h(3,5,6,7)] fst_conv
    by (rule match_base_version_intro[OF h(3,4,5) nl])
  ultimately show ?thesis by blast
qed

lemma find_all_ma_files_member:
  "p \<in> set (find_all_ma_files wk) \<Longrightarrow> \<exists>d fn. p = join d fn \<and> version_regex_match fn"
  by (auto simp: find_all_ma_files_def)

lemma clone_latest_stages:
  "clone_latest w src dst answer =
     (case validate_and_select w (strip src) (strip dst) of
        Inl e \<Rightarrow> (Error e, [], w)
      | Inr (t, latest_ma) \<Rightarrow> name_and_copy w answer t (strip dst) latest_ma)"
  by (simp add: clone_latest_def Let_def)

lemma truthy_Some: "truthy t \<Longrightarrow> \<exists>x. t = Some x \<and> x \<noteq> []"
  by (cases t) (auto simp: truthy_def)

lemma validate_and_select_Inr:
  assumes "validate_and_select w s d = Inr (t, latest)"
  shows "s \<noteq> []" "isdir w s" "d \<noteq> []"
    "find_token ''ep_'' (replace [backslash] ''/'' s) = Some (old_ep t)"
    "find_token ''sq_'' (replace [backslash] ''/'' s) = Some (old_sq t)"
    "find_token ''sh_'' (replace [backslash] ''/'' s) = Some (old_sh t)"
    "find_token ''ep_'' (replace [backslash] ''/'' d) = Some (new_ep t)"
    "find_token ''sq_'' (replace [backslash] ''/'' d) = Some (new_sq t)"
    "find_token ''sh_'' (replace [backslash] ''/'' d) = Some (new_sh t)"
    "normpath s \<noteq> normpath d"
    "select_highest_version (find_all_ma_files (walk w (files w) s)) = Some latest"
    "latest \<noteq> []"
  using assms unfolding validate_and_select_def Let_def
  by (auto split: if_splits option.splits dest!: truthy_Some)

lemma validate_and_select_not_NoLatest:
  "validate_and_select w s d \<noteq> Inl NoLatest"
proof
  assume a: "validate_and_select w s d = Inl NoLatest"
  let ?all = "find_all_ma_files (walk w (files w) s)"
  from a have ne: "?all \<noteq> []"
    and sel: "select_highest_version ?all = None \<or> select_highest_version ?all = Some []"
    unfolding validate_and_select_def Let_def
    by (auto split: if_splits option.splits)
  from ne obtain p where p: "p \<in> set ?all" by (cases ?all) auto
  then obtain dd fn where "p = join dd fn" "version_regex_match fn"
    using find_all_ma_files_member by blast
  with scanned_path_parses[of fn dd] have vp: "ver p \<noteq> None" by auto
  from sel show False
  proof
    assume "select_highest_version ?all = None"
    from select_highest_version_None[OF this] p have "ver p = None" by (rule bspec)
    with vp show False by simp
  next
    assume s: "select_highest_version ?all = Some []"
    from select_highest_version_Some[OF s] have "[] \<in> set ?all" by auto
    then obtain dd fn where "[] = join dd fn" "version_regex_match fn"
      using find_all_ma_files_member by blast
    with scanned_path_parses[of fn dd] show False by auto
  qed
qed

lemma selected_is_scanned:
  assumes "select_highest_version (find_all_ma_files wk) = Some p"
  shows "\<exists>a. p \<noteq> [] \<and> p \<in> set (find_all_ma_files wk) \<and>
          match_base_version (fst (splitext (basename p))) = Some a"
proof -
  from select_highest_version_Some[OF assms] have m: "p \<in> set (find_all_ma_files wk)" by auto
  then obtain dd fn where "p = join dd fn" "version_regex_match fn"
    using find_all_ma_files_member by blast
  with scanned_path_parses[of fn dd] m show ?thesis by auto
qed

lemma name_and_copy_no_mismatch:
  assumes "match_base_version (fst (splitext (basename latest))) = Some a"
  shows "fst (name_and_copy w answer t d latest) \<noteq> Error NoLatest"
    "fst (name_and_copy w answer t d latest) \<noteq> Error (PatternMismatch fn)"
  using assms unfolding name_and_copy_def read_rewrite_write_def Let_def
  by (auto split: sum.splits)

text \<open>
  C9. Every path that \<open>find_all_ma_files\<close> collects has a version number; from a
  non-empty result \<open>select_highest_version\<close> returns one of its paths, not empty, and the
  base name of that path without its extension matches the second pattern. So
  \<open>clone_latest\<close> never ends with the error "Could not determine the latest-version .ma
  file" nor with "does not match pattern".
\<close>

theorem C9_defensive_branches_unreachable:
  "(\<forall>p\<in>set (find_all_ma_files wk). ver p \<noteq> None) \<and>
   (find_all_ma_files wk \<noteq> [] \<longrightarrow>
      (\<exists>p a. select_highest_version (find_all_ma_files wk) = Some p \<and> p \<noteq> [] \<and>
             p \<in> set (find_all_ma_files wk) \<and>
             match_base_version (fst (splitext (basename p))) = Some a)) \<and>
   fst (clone_latest w src dst answer) \<noteq> Error NoLatest \<and>
   (\<forall>fn. fst (clone_latest w src dst answer) \<noteq> Error (PatternMismatch fn))"
proof (intro conjI ballI impI allI)
  fix p assume "p \<in> set (find_all_ma_files wk)"
  then obtain dd fn where "p = join dd fn" "version_regex_match fn"
    using find_all_ma_files_member by blast
  with scanned_path_parses[of fn dd] show "ver p \<noteq> None" by auto
next
  assume ne: "find_all_ma_files wk \<noteq> []"
  then obtain q where q: "q \<in> set (find_all_ma_files wk)" by (cases "find_all_ma_files wk") auto
  then obtain dd fn where "q = join dd fn" "version_regex_match fn"
    using find_all_ma_files_member by blast
  with scanned_path_parses[of fn dd] have vq: "ver q \<noteq> None" by auto
  obtain p where p: "select_highest_version (find_all_ma_files wk) = Some p"
  proof (cases "select_highest_version (find_all_ma_files wk)")
    case None
    from select_highest_version_None[OF this] q have "ver q = None" by (rule bspec)
    with vq show ?thesis by simp
  next
    case (Some p)
    then show ?thesis by (rule that)
  qed
  from selected_is_scanned[OF p] p
  show "\<exists>p a. select_highest_version (find_all_ma_files wk) = Some p \<and> p \<noteq> [] \<and>
             p \<in> set (find_all_ma_files wk) \<and>
             match_base_version (fst (splitext (basename p))) = Some a" by blast
next
  show "fst (clone_latest w src dst answer) \<noteq> Error NoLatest"
  proof (cases "validate_and_select w (strip src) (strip dst)")
    case (Inl e)
    with validate_and_select_not_NoLatest[of w "strip src" "strip dst"]
    show ?thesis by (auto simp: clone_latest_stages)
  next
    case (Inr r)
    obtain t latest where r: "r = (t, latest)" by (cases r)
    from validate_and_select_Inr(11)[OF Inr[unfolded r]] selected_is_scanned
    obtain a where "match_base_version (fst (splitext (basename latest))) = Some a" by blast
    from name_and_copy_no_mismatch(1)[OF this] Inr r
    show ?thesis by (simp add: clone_latest_stages)
  qed
next
  fix fn
  show "fst (clone_latest w src dst answer) \<noteq> Error (PatternMismatch fn)"
  proof (cases "validate_and_select w (strip src) (strip dst)")
    case (Inl e)
    then have "e \<noteq> PatternMismatch fn"
      unfolding validate_and_select_def Let_def
      by (auto split: if_splits option.splits)
    with Inl show ?thesis by (simp add: clone_latest_stages)
  next
    case (Inr r)
    obtain t latest where r: "r = (t, latest)" by (cases r)
    from validate_and_select_Inr(11)[OF Inr[unfolded r]] selected_is_scanned
    obtain a where "match_base_version (fst (splitext (basename latest))) = Some a" by blast
    from name_and_copy_no_mismatch(2)[OF this] Inr r
    show ?thesis by (simp add: clone_latest_stages)
  qed
qed

theorem C9_defensive_branches_unreachable_witness:
  "find_all_ma_files [(''/s'', [''a_v1.ma'', ''notes.txt'']), (''/s/old'', [''a_V7.MA''])] \<noteq> [] \<and>
   (\<exists>p a. select_highest_version
            (find_all_ma_files [(''/s'', [''a_v1.ma'', ''notes.txt'']), (''/s/old'', [''a_V7.MA''])])
            = Some p \<and> p \<noteq> [] \<and>
          p \<in> set (find_all_ma_files
                      [(''/s'', [''a_v1.ma'', ''notes.txt'']), (''/s/old'', [''a_V7.MA''])]) \<and>
          match_base_version (fst (splitext (basename p))) = Some a)"
proof -
  have ne: "find_all_ma_files
              [(''/s'', [''a_v1.ma'', ''notes.txt'']), (''/s/old'', [''a_V7.MA''])] \<noteq> []"
    by code_simp
  from C9_defensive_branches_unreachable
         [of "[(''/s'', [''a_v1.ma'', ''notes.txt'']), (''/s/old'', [''a_V7.MA''])]"] ne
  show ?thesis by blast
qed

subsection \<open>The number a version stands for\<close>

lemma digit_char_cases:
  assumes "k < 10"
  shows "digit_val (digit_char k) = int k \<and> is_digit (digit_char k)"
proof -
  from assms have "k = 0 \<or> k = 1 \<or> k = 2 \<or> k = 3 \<or> k = 4 \<or> k = 5 \<or> k = 6 \<or> k = 7 \<or>
      k = 8 \<or> k = 9" by arith
  then show ?thesis
    by (elim disjE) (simp_all add: digit_char_def digit_val_def is_digit_def)
qed

lemma int_of_digits_snoc:
  "int_of_digits (ds @ [c]) = 10 * int_of_digits ds + digit_val c"
  by (simp add: int_of_digits_def)

lemma int_of_digits_decimal: "int_of_digits (decimal n) = int n"
proof (induction n rule: decimal.induct)
  case (1 n)
  show ?case
  proof (cases "n < 10")
    case True
    then have "decimal n = [digit_char n]" by (simp add: decimal.simps[of n])
    with digit_char_cases[OF True] show ?thesis by (simp add: int_of_digits_def)
  next
    case False
    then have d: "decimal n = decimal (n div 10) @ [digit_char (n mod 10)]"
      by (simp add: decimal.simps[of n])
    have "n mod 10 < 10" by simp
    from digit_char_cases[OF this] have "digit_val (digit_char (n mod 10)) = int (n mod 10)"
      by simp
    moreover have "int_of_digits (decimal (n div 10)) = int (n div 10)"
      using "1.IH" False by simp
    ultimately have "int_of_digits (decimal n) = 10 * int (n div 10) + int (n mod 10)"
      unfolding d int_of_digits_snoc by simp
    also have "\<dots> = int (10 * (n div 10) + n mod 10)"
      by (simp only: of_nat_add of_nat_mult of_nat_numeral)
    also have "\<dots> = int n" by simp
    finally show ?thesis .
  qed
qed

lemma decimal_digits: "decimal n \<noteq> [] \<and> list_all is_digit (decimal n)"
proof (induction n rule: decimal.induct)
  case (1 n)
  show ?case
  proof (cases "n < 10")
    case True
    then have "decimal n = [digit_char n]" by (simp add: decimal.simps[of n])
    with digit_char_cases[OF True] show ?thesis by simp
  next
    case False
    then have d: "decimal n = decimal (n div 10) @ [digit_char (n mod 10)]"
      by (simp add: decimal.simps[of n])
    have "n mod 10 < 10" by simp
    from digit_char_cases[OF this] have "is_digit (digit_char (n mod 10))" by simp
    moreover have "list_all is_digit (decimal (n div 10))" using "1.IH" False by simp
    ultimately show ?thesis unfolding d by simp
  qed
qed

lemma int_of_digits_zeros:
  "int_of_digits (replicate k (CHR ''0'') @ ds) = int_of_digits ds"
proof -
  have "foldl (\<lambda>n c. 10 * n + digit_val c) 0 (replicate k (CHR ''0'')) = 0"
    by (induction k) (simp_all add: digit_val_def)
  then show ?thesis by (simp add: int_of_digits_def)
qed

lemma ver_of_numeral:
  "ver (join d (a @ ''_v'' @ replicate k (CHR ''0'') @ decimal n @ ''.ma'')) = Some (int n)"
proof -
  let ?ds = "replicate k (CHR ''0'') @ decimal n"
  let ?tail = "''_v'' @ replicate k (CHR ''0'') @ decimal n @ ''.ma''"
  have z: "list_all is_digit (replicate k (CHR ''0''))"
    by (simp add: list_all_iff is_digit_def)
  have dg: "?ds \<noteq> []" "list_all is_digit ?ds"
    using decimal_digits[of n] z by simp_all
  have "CHR ''/'' \<notin> set ?ds" by (rule digits_no_sep[OF dg(2)])
  then have tail: "CHR ''/'' \<notin> set ?tail" by auto
  have b: "basename (join d (a @ ?tail)) = basename a @ ?tail"
    unfolding basename_join_any by (rule basename_keeps_tail[OF tail])
  have e: "basename a @ ?tail = basename a @ ''_v'' @ ?ds @ ''.ma'' @ []" by simp
  have "extract_version_number (basename a @ ''_v'' @ ?ds @ ''.ma'' @ []) =
        Some (int_of_digits ?ds)"
    by (rule extract_version_number_intro[OF _ dg]) (simp_all add: ci_eq_def)
  then have "extract_version_number (basename (join d (a @ ?tail))) = Some (int_of_digits ?ds)"
    unfolding b e .
  then show ?thesis
    by (simp only: int_of_digits_zeros int_of_digits_decimal)
qed

lemma select_two:
  assumes "ver p = Some m" "ver q = Some n" "m < n" "0 \<le> m"
  shows "select_highest_version [p, q] = Some q" "select_highest_version [q, p] = Some q"
  using assms by (simp_all add: select_highest_version_def)

subsection \<open>Claims on the selection\<close>

text \<open>
  C2. The version of a path is the number its digits denote: for every number \<open>n\<close>, a
  file name that ends with \<open>_v\<close>, any number of zeros, the decimal numeral of \<open>n\<close> and
  \<open>.ma\<close> has version \<open>n\<close>. The scanner selects an entry whose version number is
  greatest, compared as numbers: whenever some candidate has a version, the selected path
  is one of the candidates, it has a version, and no candidate has a greater one; of two
  candidates with numbers \<open>m < n\<close>, in either order and however the digits are padded,
  the one with \<open>n\<close> is selected. Among \<open>scene_v1.ma\<close>, \<open>scene_v10.ma\<close>,
  \<open>scene_v2.ma\<close> in one directory it selects \<open>scene_v10.ma\<close>. With no candidate, and
  with no candidate that has a version, nothing is selected.
\<close>

theorem C2_selects_greatest_version:
  "select_highest_version [] = None \<and>
   find_all_ma_files [] = [] \<and>
   ((\<forall>q\<in>set ps. ver q = None) \<longrightarrow> select_highest_version ps = None) \<and>
   ((\<exists>q\<in>set ps. ver q \<noteq> None) \<longrightarrow>
      (\<exists>p v. select_highest_version ps = Some p \<and> p \<in> set ps \<and> ver p = Some v \<and>
             (\<forall>q\<in>set ps. \<forall>w. ver q = Some w \<longrightarrow> w \<le> v))) \<and>
   select_highest_version
     (find_all_ma_files [(d, [''scene_v1.ma'', ''scene_v10.ma'', ''scene_v2.ma''])]) =
   Some (join d ''scene_v10.ma'') \<and>
   ver (join d (a @ ''_v'' @ replicate k (CHR ''0'') @ decimal n @ ''.ma'')) = Some (int n) \<and>
   (m < n \<longrightarrow>
      select_highest_version
        [join d (a @ ''_v'' @ replicate j (CHR ''0'') @ decimal m @ ''.ma''),
         join e (b @ ''_v'' @ replicate k (CHR ''0'') @ decimal n @ ''.ma'')] =
      Some (join e (b @ ''_v'' @ replicate k (CHR ''0'') @ decimal n @ ''.ma'')) \<and>
      select_highest_version
        [join e (b @ ''_v'' @ replicate k (CHR ''0'') @ decimal n @ ''.ma''),
         join d (a @ ''_v'' @ replicate j (CHR ''0'') @ decimal m @ ''.ma'')] =
      Some (join e (b @ ''_v'' @ replicate k (CHR ''0'') @ decimal n @ ''.ma'')))"
proof -
  have A: "select_highest_version [] = None" by (simp add: select_highest_version_def)
  have B: "find_all_ma_files [] = []" by (simp add: find_all_ma_files_def)
  have C: "(\<forall>q\<in>set ps. ver q = None) \<longrightarrow> select_highest_version ps = None"
  proof
    assume none: "\<forall>q\<in>set ps. ver q = None"
    show "select_highest_version ps = None"
    proof (cases "select_highest_version ps")
      case None then show ?thesis .
    next
      case (Some p)
      from select_highest_version_Some[OF this] none show ?thesis by auto
    qed
  qed
  have D: "(\<exists>q\<in>set ps. ver q \<noteq> None) \<longrightarrow>
      (\<exists>p v. select_highest_version ps = Some p \<and> p \<in> set ps \<and> ver p = Some v \<and>
             (\<forall>q\<in>set ps. \<forall>w. ver q = Some w \<longrightarrow> w \<le> v))"
  proof
    assume some: "\<exists>q\<in>set ps. ver q \<noteq> None"
    show "\<exists>p v. select_highest_version ps = Some p \<and> p \<in> set ps \<and> ver p = Some v \<and>
               (\<forall>q\<in>set ps. \<forall>w. ver q = Some w \<longrightarrow> w \<le> v)"
    proof (cases "select_highest_version ps")
      case None
      from select_highest_version_None[OF this] some show ?thesis by auto
    next
      case (Some p)
      from select_highest_version_Some[OF this] obtain xs ys v where
        h: "ps = xs @ p # ys" "ver p = Some v"
           "\<forall>q\<in>set xs. \<forall>w. ver q = Some w \<longrightarrow> w < v"
           "\<forall>q\<in>set ys. \<forall>w. ver q = Some w \<longrightarrow> w \<le> v" by blast
      have "\<forall>q\<in>set ps. \<forall>w. ver q = Some w \<longrightarrow> w \<le> v"
        using h by (auto simp: less_imp_le)
      moreover have "p \<in> set ps" using h(1) by simp
      ultimately show ?thesis using Some h(2) by blast
    qed
  qed
  have E: "select_highest_version
     (find_all_ma_files [(d, [''scene_v1.ma'', ''scene_v10.ma'', ''scene_v2.ma''])]) =
     Some (join d ''scene_v10.ma'')"
    by (rule select_highest_version_example)
  have F: "ver (join d (a @ ''_v'' @ replicate k (CHR ''0'') @ decimal n @ ''.ma'')) =
           Some (int n)"
    by (rule ver_of_numeral)
  have G: "m < n \<longrightarrow>
      select_highest_version
        [join d (a @ ''_v'' @ replicate j (CHR ''0'') @ decimal m @ ''.ma''),
         join e (b @ ''_v'' @ replicate k (CHR ''0'') @ decimal n @ ''.ma'')] =
      Some (join e (b @ ''_v'' @ replicate k (CHR ''0'') @ decimal n @ ''.ma'')) \<and>
      select_highest_version
        [join e (b @ ''_v'' @ replicate k (CHR ''0'') @ decimal n @ ''.ma''),
         join d (a @ ''_v'' @ replicate j (CHR ''0'') @ decimal m @ ''.ma'')] =
      Some (join e (b @ ''_v'' @ replicate k (CHR ''0'') @ decimal n @ ''.ma''))"
  proof
    assume "m < n"
    then have lt: "int m < int n" "0 \<le> int m" by simp_all
    show "select_highest_version
        [join d (a @ ''_v'' @ replicate j (CHR ''0'') @ decimal m @ ''.ma''),
         join e (b @ ''_v'' @ replicate k (CHR ''0'') @ decimal n @ ''.ma'')] =
      Some (join e (b @ ''_v'' @ replicate k (CHR ''0'') @ decimal n @ ''.ma'')) \<and>
      select_highest_version
        [join e (b @ ''_v'' @ replicate k (CHR ''0'') @ decimal n @ ''.ma''),
         join d (a @ ''_v'' @ replicate j (CHR ''0'') @ decimal m @ ''.ma'')] =
      Some (join e (b @ ''_v'' @ replicate k (CHR ''0'') @ decimal n @ ''.ma''))"
      using select_two[OF ver_of_numeral ver_of_numeral lt] by (rule conjI)
  qed
  show ?thesis
    by (rule conjI[OF A conjI[OF B conjI[OF C conjI[OF D conjI[OF E conjI[OF F G]]]]]])
qed

theorem C2_selects_greatest_version_witness:
  "(\<exists>q\<in>set [''/s/a_v9.ma'', ''/s/a_v10.ma'']. ver q \<noteq> None) \<and>
   (\<exists>p v. select_highest_version [''/s/a_v9.ma'', ''/s/a_v10.ma''] = Some p \<and>
          p \<in> set [''/s/a_v9.ma'', ''/s/a_v10.ma''] \<and> ver p = Some v \<and>
          (\<forall>q\<in>set [''/s/a_v9.ma'', ''/s/a_v10.ma'']. \<forall>w. ver q = Some w \<longrightarrow> w \<le> v)) \<and>
   ver ''/s/readme.ma'' = None \<and>
   select_highest_version [''/s/readme.ma''] = None \<and>
   select_highest_version [''/s/a_v009.ma'', ''/t/b_v10.ma''] = Some ''/t/b_v10.ma'' \<and>
   select_highest_version [''/t/b_v10.ma'', ''/s/a_v009.ma''] = Some ''/t/b_v10.ma''"
proof -
  have v: "ver ''/s/a_v9.ma'' = Some 9" by code_simp
  have n: "ver ''/s/readme.ma'' = None" by code_simp
  have h: "\<exists>q\<in>set [''/s/a_v9.ma'', ''/s/a_v10.ma'']. ver q \<noteq> None" using v by simp
  have k: "\<forall>q\<in>set [''/s/readme.ma'']. ver q = None" using n by simp
  have p: "join ''/s'' (''a'' @ ''_v'' @ replicate 2 (CHR ''0'') @ decimal 9 @ ''.ma'') =
           ''/s/a_v009.ma''"
    "join ''/t'' (''b'' @ ''_v'' @ replicate 0 (CHR ''0'') @ decimal 10 @ ''.ma'') =
           ''/t/b_v10.ma''"
    by code_simp+
  have lt: "(9::nat) < 10" by simp
  from C2_selects_greatest_version[where ps = "[''/s/a_v9.ma'', ''/s/a_v10.ma'']"] h
  have 1: "\<exists>p v. select_highest_version [''/s/a_v9.ma'', ''/s/a_v10.ma''] = Some p \<and>
          p \<in> set [''/s/a_v9.ma'', ''/s/a_v10.ma''] \<and> ver p = Some v \<and>
          (\<forall>q\<in>set [''/s/a_v9.ma'', ''/s/a_v10.ma'']. \<forall>w. ver q = Some w \<longrightarrow> w \<le> v)"
    by blast
  from C2_selects_greatest_version[where ps = "[''/s/readme.ma'']"] k
  have 2: "select_highest_version [''/s/readme.ma''] = None" by blast
  from C2_selects_greatest_version[where m = 9 and n = 10 and d = "''/s''" and e = "''/t''" and
      a = "''a''" and b = "''b''" and j = 2 and k = 0] lt
  have 3: "select_highest_version [''/s/a_v009.ma'', ''/t/b_v10.ma''] = Some ''/t/b_v10.ma''"
    "select_highest_version [''/t/b_v10.ma'', ''/s/a_v009.ma''] = Some ''/t/b_v10.ma''"
    unfolding p by blast+
  from h 1 n 2 3 show ?thesis by blast
qed

text \<open>
  C5. When several entries share the greatest version number, the first of them in
  list order is returned: every entry before the selected one has a strictly smaller
  version (or none), and no entry after it has a greater one.
\<close>

theorem C5_first_of_equal_versions:
  "select_highest_version ps = Some p \<Longrightarrow>
   \<exists>xs ys v. ps = xs @ p # ys \<and> ver p = Some v \<and>
     (\<forall>q\<in>set xs. \<forall>w. ver q = Some w \<longrightarrow> w < v) \<and>
     (\<forall>q\<in>set ys. \<forall>w. ver q = Some w \<longrightarrow> w \<le> v)"
  by (rule select_highest_version_Some)

theorem C5_first_of_equal_versions_witness:
  "select_highest_version [''/s/a_v2.ma'', ''/s/b_v5.ma'', ''/s/c_v5.ma''] = Some ''/s/b_v5.ma'' \<and>
   (\<exists>xs ys v. [''/s/a_v2.ma'', ''/s/b_v5.ma'', ''/s/c_v5.ma''] = xs @ ''/s/b_v5.ma'' # ys \<and>
      ver ''/s/b_v5.ma'' = Some v \<and>
      (\<forall>q\<in>set xs. \<forall>w. ver q = Some w \<longrightarrow> w < v) \<and>
      (\<forall>q\<in>set ys. \<forall>w. ver q = Some w \<longrightarrow> w \<le> v))"
proof -
  have h: "select_highest_version [''/s/a_v2.ma'', ''/s/b_v5.ma'', ''/s/c_v5.ma''] =
           Some ''/s/b_v5.ma''"
    by code_simp
  from C5_first_of_equal_versions[OF h] h show ?thesis by blast
qed

section \<open>Validation of the two folders\<close>



lemma find_token_normalized:
  "find_token lit (replace [backslash] ''/'' p) = find_token lit p"
  by (simp add: find_token_def normalize_idem)











text \<open>
  Without the earlier checks the message need not list the tokens: a source path that is
  no directory is answered with the message on the source folder, whatever tokens it
  lacks, and a destination path that lacks a token is not reported while the source path
  lacks one.
\<close>

theorem C6_counterexample:
  "find_token ''sh_'' (strip ''/nowhere/ep_01/sq_010/work'') = None \<and>
   fst (clone_latest studio ''/nowhere/ep_01/sq_010/work'' ''/show/ep_02/sq_020/sh_030/work''
          True) = Error InvalidSource \<and>
   message InvalidSource = ''Please choose a valid Source Shot folder.'' \<and>
   find_token ''sq_'' (strip ''/show/ep_02/sh_030/work'') = None \<and>
   fst (clone_latest studio ''/show/ep_01/sq_010/work'' ''/show/ep_02/sh_030/work'' True) =
     Error (SourceTokens (Some ''ep_01'') (Some ''sq_010'') None) \<and>
   message (SourceTokens (Some ''ep_01'') (Some ''sq_010'') None) =
     ''Source folder must contain ep_###, sq_###, and sh_###.'' @ [newline] @
     ''Found: ep=ep_01, sq=sq_010, sh=None''"
  by code_simp

section \<open>Writing the copy\<close>

lemma read_rewrite_write_Success:
  assumes "fst (read_rewrite_write w tr t (a, b) fn nfn bn bb) = Success x y z"
  shows "\<exists>content. read_file w a = Inr content \<and> write_error w b = None \<and> x = a \<and> y = b \<and>
           z = [(old_ep t, new_ep t), (old_sq t, new_sq t), (old_sh t, new_sh t)] \<and>
           read_rewrite_write w tr t (a, b) fn nfn bn bb =
             (Success a b z,
              tr @ [ReadFile a, WriteFile b (rewrite_content t fn nfn bn bb content)],
              w\<lparr>files := (files w)(b \<mapsto> rewrite_content t fn nfn bn bb content)\<rparr>)"
  using assms unfolding read_rewrite_write_def write_file_def Let_def
  by (auto split: sum.splits option.splits)

lemma read_rewrite_write_files:
  "files (snd (snd (read_rewrite_write w tr t (a, b) fn nfn bn bb))) p \<noteq> files w p \<Longrightarrow> p = b"
  unfolding read_rewrite_write_def write_file_def Let_def
  by (auto split: sum.splits option.splits if_splits)

lemma read_rewrite_write_trace:
  "\<exists>more. fst (snd (read_rewrite_write w tr t (a, b) fn nfn bn bb)) = tr @ more \<and>
          AskOverwrite q \<notin> set more"
  unfolding read_rewrite_write_def write_file_def Let_def
  by (auto split: sum.splits option.splits)

lemma makedirs_Inr:
  "makedirs w d = Inr w1 \<Longrightarrow>
   makedirs_error w d = None \<and> w1 = w\<lparr>isdir := (isdir w)(d := True)\<rparr>"
  by (auto simp: makedirs_def split: option.splits)

lemma name_and_copy_declined:
  assumes "match_base_version (fst (splitext (basename latest))) = Some bb"
    and "makedirs_error w d = None"
    and "files w (join d (bb @ ''_v001.ma'')) \<noteq> None"
  shows "name_and_copy w False t d latest =
           (Cancelled, [MakeDirs d, AskOverwrite (bb @ ''_v001.ma'')],
            w\<lparr>isdir := (isdir w)(d := True)\<rparr>)"
  using assms unfolding name_and_copy_def makedirs_def Let_def by simp

lemma name_and_copy_keeps_existing:
  assumes "files w p \<noteq> None"
  shows "files (snd (snd (name_and_copy w False t d latest))) p = files w p"
proof (cases "match_base_version (fst (splitext (basename latest)))")
  case None
  then show ?thesis by (simp add: name_and_copy_def Let_def)
next
  case (Some bb)
  show ?thesis
  proof (cases "makedirs w d")
    case (Inl e)
    with Some show ?thesis by (simp add: name_and_copy_def Let_def)
  next
    case (Inr w1)
    from makedirs_Inr[OF this] have f: "files w1 = files w" by simp
    show ?thesis
    proof (cases "files w (join d (bb @ ''_v001.ma'')) = None")
      case False
      with Some Inr f show ?thesis by (simp add: name_and_copy_def Let_def)
    next
      case True
      with assms have "p \<noteq> join d (bb @ ''_v001.ma'')" by auto
      with read_rewrite_write_files[of w1 _ t latest "join d (bb @ ''_v001.ma'')" _ _ _ _ p]
      have "files (snd (snd (read_rewrite_write w1 [MakeDirs d] t
               (latest, join d (bb @ ''_v001.ma'')) (basename latest) (bb @ ''_v001.ma'')
               (fst (splitext (basename latest))) bb))) p = files w1 p"
        by blast
      with Some Inr f True show ?thesis by (simp add: name_and_copy_def Let_def)
    qed
  qed
qed

lemma name_and_copy_Cancelled:
  assumes "fst (name_and_copy w answer t d latest) = Cancelled"
  shows "\<not> answer \<and> files (snd (snd (name_and_copy w answer t d latest))) = files w \<and>
         (\<forall>a\<in>set (fst (snd (name_and_copy w answer t d latest))). \<not> touches_file a) \<and>
         (\<exists>fn. AskOverwrite fn \<in> set (fst (snd (name_and_copy w answer t d latest))))"
  using assms unfolding name_and_copy_def read_rewrite_write_def makedirs_def write_file_def Let_def
  by (auto simp: touches_file_def split: option.splits sum.splits if_splits)

lemma name_and_copy_asks_first:
  assumes "fst (snd (name_and_copy w answer t d latest)) = pre @ AskOverwrite fn # post"
  shows "\<forall>a\<in>set pre. \<not> touches_file a"
proof (cases "match_base_version (fst (splitext (basename latest)))")
  case None
  with assms show ?thesis by (simp add: name_and_copy_def Let_def)
next
  case (Some bb)
  show ?thesis
  proof (cases "makedirs w d")
    case (Inl e)
    with Some assms have "[MakeDirs d] = pre @ AskOverwrite fn # post"
      by (simp add: name_and_copy_def Let_def)
    then show ?thesis by (cases pre) auto
  next
    case (Inr w1)
    let ?dp = "join d (bb @ ''_v001.ma'')"
    let ?ask = "if files w1 ?dp \<noteq> None then [AskOverwrite (bb @ ''_v001.ma'')] else []"
    obtain more where m: "fst (snd (name_and_copy w answer t d latest)) =
        ([MakeDirs d] @ ?ask) @ more" "AskOverwrite fn \<notin> set more"
    proof (cases "files w1 ?dp \<noteq> None \<and> \<not> answer")
      case True
      with Some Inr have "fst (snd (name_and_copy w answer t d latest)) = ([MakeDirs d] @ ?ask) @ []"
        by (simp add: name_and_copy_def Let_def)
      then show ?thesis using that by force
    next
      case False
      from read_rewrite_write_trace[of w1 "[MakeDirs d] @ ?ask" t latest ?dp "basename latest"
          "bb @ ''_v001.ma''" "fst (splitext (basename latest))" bb fn]
      obtain more where "fst (snd (read_rewrite_write w1 ([MakeDirs d] @ ?ask) t (latest, ?dp)
          (basename latest) (bb @ ''_v001.ma'') (fst (splitext (basename latest))) bb)) =
          ([MakeDirs d] @ ?ask) @ more" "AskOverwrite fn \<notin> set more" by blast
      moreover from False Some Inr have "name_and_copy w answer t d latest =
          read_rewrite_write w1 ([MakeDirs d] @ ?ask) t (latest, ?dp)
          (basename latest) (bb @ ''_v001.ma'') (fst (splitext (basename latest))) bb"
        by (auto simp add: name_and_copy_def Let_def)
      ultimately show ?thesis using that by simp
    qed
    from m(1) assms have eq: "pre @ AskOverwrite fn # post = ([MakeDirs d] @ ?ask) @ more" by simp
    have "AskOverwrite fn \<in> set ([MakeDirs d] @ ?ask)"
    proof -
      have "AskOverwrite fn \<in> set (pre @ AskOverwrite fn # post)" by simp
      with eq m(2) show ?thesis by (metis Un_iff set_append)
    qed
    then have ask: "?ask = [AskOverwrite fn]" by (auto split: if_splits)
    with eq have "pre @ AskOverwrite fn # post = [MakeDirs d] @ AskOverwrite fn # more" by simp
    with m(2) have "pre = [MakeDirs d]"
      by (metis append_Cons_eq_iff in_set_conv_decomp list.set_intros(1) append_Nil
          action.distinct(1) set_ConsD empty_iff empty_set)
    then show ?thesis by (simp add: touches_file_def)
  qed
qed

lemma name_and_copy_Success:
  assumes "fst (name_and_copy w answer t d latest) = Success x y z"
  shows "\<exists>bb c. match_base_version (fst (splitext (basename latest))) = Some bb \<and>
           makedirs_error w d = None \<and> x = latest \<and> y = join d (bb @ ''_v001.ma'') \<and>
           z = [(old_ep t, new_ep t), (old_sq t, new_sq t), (old_sh t, new_sh t)] \<and>
           files (w\<lparr>isdir := (isdir w)(d := True)\<rparr>) latest = Some c \<and>
           (\<exists>ask. fst (snd (name_and_copy w answer t d latest)) =
              [MakeDirs d] @ ask @
              [ReadFile latest,
               WriteFile y (rewrite_content t (basename latest) (bb @ ''_v001.ma'')
                              (fst (splitext (basename latest))) bb c)] \<and>
              (ask = [] \<or> ask = [AskOverwrite (bb @ ''_v001.ma'')])) \<and>
           snd (snd (name_and_copy w answer t d latest)) =
             w\<lparr>isdir := (isdir w)(d := True),
               files := (files w)(y \<mapsto> rewrite_content t (basename latest) (bb @ ''_v001.ma'')
                                         (fst (splitext (basename latest))) bb c)\<rparr>"
proof (cases "match_base_version (fst (splitext (basename latest)))")
  case None
  with assms show ?thesis by (simp add: name_and_copy_def Let_def)
next
  case (Some bb)
  show ?thesis
  proof (cases "makedirs w d")
    case (Inl e)
    with Some assms show ?thesis by (simp add: name_and_copy_def Let_def)
  next
    case (Inr w1)
    from makedirs_Inr[OF this] have w1: "makedirs_error w d = None"
      "w1 = w\<lparr>isdir := (isdir w)(d := True)\<rparr>" by simp_all
    let ?dp = "join d (bb @ ''_v001.ma'')"
    let ?ask = "if files w1 ?dp \<noteq> None then [AskOverwrite (bb @ ''_v001.ma'')] else []"
    have nc: "\<not> (files w1 ?dp \<noteq> None \<and> \<not> answer)"
    proof
      assume "files w1 ?dp \<noteq> None \<and> \<not> answer"
      with Some Inr have "fst (name_and_copy w answer t d latest) = Cancelled"
        by (simp add: name_and_copy_def Let_def)
      with assms show False by simp
    qed
    with Some Inr have eq: "name_and_copy w answer t d latest =
          read_rewrite_write w1 ([MakeDirs d] @ ?ask) t (latest, ?dp)
          (basename latest) (bb @ ''_v001.ma'') (fst (splitext (basename latest))) bb"
      by (auto simp add: name_and_copy_def Let_def)
    from read_rewrite_write_Success[OF assms[unfolded eq]]
    obtain content where c: "read_file w1 latest = Inr content" "x = latest" "y = ?dp"
      "z = [(old_ep t, new_ep t), (old_sq t, new_sq t), (old_sh t, new_sh t)]"
      "read_rewrite_write w1 ([MakeDirs d] @ ?ask) t (latest, ?dp)
          (basename latest) (bb @ ''_v001.ma'') (fst (splitext (basename latest))) bb =
       (Success latest ?dp z,
        ([MakeDirs d] @ ?ask) @ [ReadFile latest, WriteFile ?dp
            (rewrite_content t (basename latest) (bb @ ''_v001.ma'')
               (fst (splitext (basename latest))) bb content)],
        w1\<lparr>files := (files w1)(?dp \<mapsto> rewrite_content t (basename latest) (bb @ ''_v001.ma'')
               (fst (splitext (basename latest))) bb content)\<rparr>)"
      by blast
    from c(1) have fc: "files w1 latest = Some content"
      by (auto simp: read_file_def split: option.splits)
    have ask: "?ask = [] \<or> ?ask = [AskOverwrite (bb @ ''_v001.ma'')]" by simp
    have tr: "fst (snd (name_and_copy w answer t d latest)) =
        [MakeDirs d] @ ?ask @
        [ReadFile latest,
         WriteFile y (rewrite_content t (basename latest) (bb @ ''_v001.ma'')
                        (fst (splitext (basename latest))) bb content)]"
      by (simp only: eq c(5) c(3) fst_conv snd_conv append.assoc)
    have "snd (snd (name_and_copy w answer t d latest)) =
        w1\<lparr>files := (files w1)(y \<mapsto> rewrite_content t (basename latest) (bb @ ''_v001.ma'')
                                    (fst (splitext (basename latest))) bb content)\<rparr>"
      by (simp only: eq c(5) c(3) fst_conv snd_conv)
    then have wd: "snd (snd (name_and_copy w answer t d latest)) =
        w\<lparr>isdir := (isdir w)(d := True),
          files := (files w)(y \<mapsto> rewrite_content t (basename latest) (bb @ ''_v001.ma'')
                                    (fst (splitext (basename latest))) bb content)\<rparr>"
      by (simp add: w1(2))
    from Some w1(1) c(2,3,4) fc[unfolded w1(2)] tr ask wd show ?thesis by blast
  qed
qed

lemma validate_and_select_cong:
  "isdir w' s = isdir w s \<Longrightarrow> walk w' (files w') s = walk w (files w) s \<Longrightarrow>
   validate_and_select w' s d = validate_and_select w s d"
  unfolding validate_and_select_def by presburger

lemma clone_latest_Success:
  assumes "fst (clone_latest w src dst answer) = Success x y z"
  shows "\<exists>t bb c. validate_and_select w (strip src) (strip dst) = Inr (t, x) \<and>
           match_base_version (fst (splitext (basename x))) = Some bb \<and>
           makedirs_error w (strip dst) = None \<and> y = join (strip dst) (bb @ ''_v001.ma'') \<and>
           z = [(old_ep t, new_ep t), (old_sq t, new_sq t), (old_sh t, new_sh t)] \<and>
           files w x = Some c \<and>
           (\<exists>ask. fst (snd (clone_latest w src dst answer)) =
              [MakeDirs (strip dst)] @ ask @
              [ReadFile x,
               WriteFile y (rewrite_content t (basename x) (bb @ ''_v001.ma'')
                              (fst (splitext (basename x))) bb c)] \<and>
              (ask = [] \<or> ask = [AskOverwrite (bb @ ''_v001.ma'')])) \<and>
           snd (snd (clone_latest w src dst answer)) =
             w\<lparr>isdir := (isdir w)(strip dst := True),
               files := (files w)(y \<mapsto> rewrite_content t (basename x) (bb @ ''_v001.ma'')
                                         (fst (splitext (basename x))) bb c)\<rparr>"
proof (cases "validate_and_select w (strip src) (strip dst)")
  case (Inl e)
  with assms show ?thesis by (simp add: clone_latest_stages)
next
  case (Inr r)
  obtain t latest where r: "r = (t, latest)" by (cases r)
  with Inr have eq: "clone_latest w src dst answer = name_and_copy w answer t (strip dst) latest"
    by (simp add: clone_latest_stages)
  from name_and_copy_Success[OF assms[unfolded eq]] obtain bb c where
    h: "match_base_version (fst (splitext (basename latest))) = Some bb"
       "makedirs_error w (strip dst) = None" "x = latest" "y = join (strip dst) (bb @ ''_v001.ma'')"
       "z = [(old_ep t, new_ep t), (old_sq t, new_sq t), (old_sh t, new_sh t)]"
       "files (w\<lparr>isdir := (isdir w)(strip dst := True)\<rparr>) latest = Some c"
       "\<exists>ask. fst (snd (name_and_copy w answer t (strip dst) latest)) =
              [MakeDirs (strip dst)] @ ask @
              [ReadFile latest,
               WriteFile y (rewrite_content t (basename latest) (bb @ ''_v001.ma'')
                              (fst (splitext (basename latest))) bb c)] \<and>
              (ask = [] \<or> ask = [AskOverwrite (bb @ ''_v001.ma'')])"
       "snd (snd (name_and_copy w answer t (strip dst) latest)) =
             w\<lparr>isdir := (isdir w)(strip dst := True),
               files := (files w)(y \<mapsto> rewrite_content t (basename latest) (bb @ ''_v001.ma'')
                                         (fst (splitext (basename latest))) bb c)\<rparr>"
    by blast
  from h(6) have fc: "files w x = Some c" by (simp add: h(3))
  from Inr r h(3) have v: "validate_and_select w (strip src) (strip dst) = Inr (t, x)" by simp
  from v h(1,2,4,5,7,8) fc show ?thesis unfolding eq h(3) by blast
qed

lemma clone_latest_declined_keeps:
  assumes "files w p \<noteq> None"
  shows "files (snd (snd (clone_latest w src dst False))) p = files w p"
proof (cases "validate_and_select w (strip src) (strip dst)")
  case (Inl e)
  then show ?thesis by (simp add: clone_latest_stages)
next
  case (Inr r)
  obtain t' l' where "r = (t', l')" by (cases r)
  with Inr have eq: "clone_latest w src dst False = name_and_copy w False t' (strip dst) l'"
    by (simp add: clone_latest_stages)
  show ?thesis unfolding eq by (rule name_and_copy_keeps_existing[OF assms])
qed

lemma second_run_declined:
  assumes "fst (clone_latest w src dst answer) = Success x y z"
    and "walk (snd (snd (clone_latest w src dst answer)))
           (files (snd (snd (clone_latest w src dst answer)))) (strip src) =
         walk w (files w) (strip src)"
  shows "fst (clone_latest (snd (snd (clone_latest w src dst answer))) src dst False) = Cancelled \<and>
         files (snd (snd (clone_latest (snd (snd (clone_latest w src dst answer))) src dst False))) =
           files (snd (snd (clone_latest w src dst answer)))"
proof -
  let ?w1 = "snd (snd (clone_latest w src dst answer))"
  from clone_latest_Success[OF assms(1)] obtain t bb c c' where
    h: "validate_and_select w (strip src) (strip dst) = Inr (t, x)"
       "match_base_version (fst (splitext (basename x))) = Some bb"
       "makedirs_error w (strip dst) = None" "y = join (strip dst) (bb @ ''_v001.ma'')"
       "?w1 = w\<lparr>isdir := (isdir w)(strip dst := True), files := (files w)(y \<mapsto> c')\<rparr>"
    by blast
  have d: "isdir w (strip src)" by (rule validate_and_select_Inr(2)[OF h(1)])
  have "isdir ?w1 (strip src) = isdir w (strip src)" by (simp add: h(5) d)
  then have "validate_and_select ?w1 (strip src) (strip dst) =
        validate_and_select w (strip src) (strip dst)"
    using assms(2) by (rule validate_and_select_cong)
  with h(1) have v: "validate_and_select ?w1 (strip src) (strip dst) = Inr (t, x)" by simp
  have m: "makedirs_error ?w1 (strip dst) = None" by (simp add: h(5) h(3))
  have f: "files ?w1 (join (strip dst) (bb @ ''_v001.ma'')) \<noteq> None" by (simp add: h(5) h(4))
  from name_and_copy_declined[OF h(2) m f, of t] v
  have "clone_latest ?w1 src dst False =
          (Cancelled, [MakeDirs (strip dst), AskOverwrite (bb @ ''_v001.ma'')],
           ?w1\<lparr>isdir := (isdir ?w1)(strip dst := True)\<rparr>)"
    by (simp add: clone_latest_stages)
  then show ?thesis by simp
qed

lemma name_and_copy_asks_when_exists:
  assumes "match_base_version (fst (splitext (basename latest))) = Some bb"
    and "makedirs_error w d = None"
    and "files w (join d (bb @ ''_v001.ma'')) \<noteq> None"
  shows "\<exists>rest. fst (snd (name_and_copy w answer t d latest)) =
           [MakeDirs d, AskOverwrite (bb @ ''_v001.ma'')] @ rest"
proof (cases answer)
  case False
  with name_and_copy_declined[OF assms, of t] show ?thesis by simp
next
  case True
  let ?w1 = "w\<lparr>isdir := (isdir w)(d := True)\<rparr>"
  let ?dp = "join d (bb @ ''_v001.ma'')"
  have m: "makedirs w d = Inr ?w1" using assms(2) by (simp add: makedirs_def)
  have eq: "name_and_copy w answer t d latest =
        read_rewrite_write ?w1 [MakeDirs d, AskOverwrite (bb @ ''_v001.ma'')] t (latest, ?dp)
          (basename latest) (bb @ ''_v001.ma'') (fst (splitext (basename latest))) bb"
    using assms(1,3) m True by (simp add: name_and_copy_def Let_def)
  from read_rewrite_write_trace[of ?w1 "[MakeDirs d, AskOverwrite (bb @ ''_v001.ma'')]" t latest
      ?dp "basename latest" "bb @ ''_v001.ma''" "fst (splitext (basename latest))" bb undefined]
  show ?thesis unfolding eq by blast
qed

lemma name_and_copy_write_existing:
  assumes wr: "WriteFile y c \<in> set (fst (snd (name_and_copy w answer t d latest)))"
    and ex: "files w y \<noteq> None"
  shows "answer \<and> (\<exists>fn pre post. fst (snd (name_and_copy w answer t d latest)) =
                      pre @ AskOverwrite fn # post \<and> y = join d fn \<and>
                      (\<forall>a\<in>set pre. \<not> touches_file a) \<and> WriteFile y c \<in> set post)"
proof (cases "match_base_version (fst (splitext (basename latest)))")
  case None
  with wr show ?thesis by (simp add: name_and_copy_def Let_def)
next
  case (Some bb)
  show ?thesis
  proof (cases "makedirs w d")
    case (Inl e)
    with Some wr show ?thesis by (simp add: name_and_copy_def Let_def)
  next
    case (Inr w1)
    from makedirs_Inr[OF this] have f: "files w1 = files w" by simp
    let ?dp = "join d (bb @ ''_v001.ma'')"
    let ?fn = "bb @ ''_v001.ma''"
    let ?ask = "if files w1 ?dp \<noteq> None then [AskOverwrite ?fn] else []"
    have nc: "\<not> (files w1 ?dp \<noteq> None \<and> \<not> answer)"
    proof
      assume "files w1 ?dp \<noteq> None \<and> \<not> answer"
      with Some Inr have "fst (snd (name_and_copy w answer t d latest)) =
          [MakeDirs d, AskOverwrite ?fn]"
        by (simp add: name_and_copy_def Let_def)
      with wr show False by simp
    qed
    with Some Inr have eq: "name_and_copy w answer t d latest =
          read_rewrite_write w1 ([MakeDirs d] @ ?ask) t (latest, ?dp)
          (basename latest) ?fn (fst (splitext (basename latest))) bb"
      by (auto simp add: name_and_copy_def Let_def)
    have "\<exists>more. fst (snd (read_rewrite_write w1 ([MakeDirs d] @ ?ask) t (latest, ?dp)
          (basename latest) ?fn (fst (splitext (basename latest))) bb)) =
          ([MakeDirs d] @ ?ask) @ more \<and>
          (\<forall>a\<in>set more. \<forall>q k. a = WriteFile q k \<longrightarrow> q = ?dp)"
      unfolding read_rewrite_write_def write_file_def Let_def
      by (auto split: sum.splits option.splits)
    then obtain more where more: "fst (snd (name_and_copy w answer t d latest)) =
          ([MakeDirs d] @ ?ask) @ more"
      "\<forall>a\<in>set more. \<forall>q k. a = WriteFile q k \<longrightarrow> q = ?dp"
      unfolding eq by blast
    from wr more(1) have "WriteFile y c \<in> set more" by (auto split: if_splits)
    with more(2) have y: "y = ?dp" by blast
    with ex f have e: "files w1 ?dp \<noteq> None" by simp
    with nc have "answer" by blast
    moreover from e more(1) have "fst (snd (name_and_copy w answer t d latest)) =
        [MakeDirs d] @ AskOverwrite ?fn # more" by simp
    moreover have "\<forall>a\<in>set [MakeDirs d]. \<not> touches_file a" by (simp add: touches_file_def)
    ultimately show ?thesis using y \<open>WriteFile y c \<in> set more\<close> by blast
  qed
qed

lemma name_and_copy_asks_only_existing:
  assumes "AskOverwrite fn \<in> set (fst (snd (name_and_copy w answer t d latest)))"
  shows "files w (join d fn) \<noteq> None"
  using assms
  unfolding name_and_copy_def read_rewrite_write_def makedirs_def write_file_def Let_def
  by (auto split: option.splits sum.splits if_splits)

text \<open>
  C7. When the computed destination file exists, the operation asks the overwrite
  question, whatever the user is going to answer, right after making sure the folder
  exists; it asks only then. In every run no read or write precedes the question, and a
  file that exists is written only after the question and the answer yes. When the user
  declines, the run ends as cancelled (an outcome of its own, not an error) without
  reading or writing; a cancelled run leaves every file as it was, and a run in which the
  user would decline never changes a file that exists. So after a successful run, a
  second run with the same inputs in which the user declines leaves the file written by
  the first run as it is; when the listing of the source folder is the same on the second
  run, that run is cancelled and no file changes.
\<close>

theorem C7_overwrite_confirmation:
  "(\<forall>pre fn post. fst (snd (clone_latest w src dst answer)) = pre @ AskOverwrite fn # post \<longrightarrow>
      (\<forall>a\<in>set pre. \<not> touches_file a)) \<and>
   (validate_and_select w (strip src) (strip dst) = Inr (t, latest) \<and>
    match_base_version (fst (splitext (basename latest))) = Some bb \<and>
    makedirs_error w (strip dst) = None \<and>
    files w (join (strip dst) (bb @ ''_v001.ma'')) \<noteq> None \<longrightarrow>
      (\<exists>rest. fst (snd (clone_latest w src dst answer)) =
                [MakeDirs (strip dst), AskOverwrite (bb @ ''_v001.ma'')] @ rest) \<and>
      clone_latest w src dst False =
        (Cancelled, [MakeDirs (strip dst), AskOverwrite (bb @ ''_v001.ma'')],
         w\<lparr>isdir := (isdir w)(strip dst := True)\<rparr>)) \<and>
   (\<forall>y c. WriteFile y c \<in> set (fst (snd (clone_latest w src dst answer))) \<and> files w y \<noteq> None \<longrightarrow>
      answer \<and>
      (\<exists>fn pre post. fst (snd (clone_latest w src dst answer)) = pre @ AskOverwrite fn # post \<and>
         y = join (strip dst) fn \<and> (\<forall>a\<in>set pre. \<not> touches_file a) \<and>
         WriteFile y c \<in> set post)) \<and>
   (\<forall>fn. AskOverwrite fn \<in> set (fst (snd (clone_latest w src dst answer))) \<longrightarrow>
      files w (join (strip dst) fn) \<noteq> None) \<and>
   (fst (clone_latest w src dst answer) = Cancelled \<longrightarrow>
      \<not> answer \<and> files (snd (snd (clone_latest w src dst answer))) = files w \<and>
      (\<forall>a\<in>set (fst (snd (clone_latest w src dst answer))). \<not> touches_file a) \<and>
      (\<exists>fn. AskOverwrite fn \<in> set (fst (snd (clone_latest w src dst answer))))) \<and>
   (\<forall>p. files w p \<noteq> None \<longrightarrow> files (snd (snd (clone_latest w src dst False))) p = files w p) \<and>
   (fst (clone_latest w src dst answer) = Success x y z \<longrightarrow>
      files (snd (snd (clone_latest w src dst answer))) y \<noteq> None \<and>
      files (snd (snd (clone_latest (snd (snd (clone_latest w src dst answer))) src dst False))) y =
        files (snd (snd (clone_latest w src dst answer))) y \<and>
      (walk (snd (snd (clone_latest w src dst answer)))
         (files (snd (snd (clone_latest w src dst answer)))) (strip src) =
       walk w (files w) (strip src) \<longrightarrow>
       fst (clone_latest (snd (snd (clone_latest w src dst answer))) src dst False) = Cancelled \<and>
       files (snd (snd (clone_latest (snd (snd (clone_latest w src dst answer))) src dst False))) =
         files (snd (snd (clone_latest w src dst answer)))))"
proof -
  let ?tr = "fst (snd (clone_latest w src dst answer))"
  have stage: "(\<exists>e. validate_and_select w (strip src) (strip dst) = Inl e \<and> ?tr = []) \<or>
      (\<exists>t' l'. validate_and_select w (strip src) (strip dst) = Inr (t', l') \<and>
         clone_latest w src dst answer = name_and_copy w answer t' (strip dst) l')"
  proof (cases "validate_and_select w (strip src) (strip dst)")
    case (Inl e)
    then show ?thesis by (simp add: clone_latest_stages)
  next
    case (Inr r)
    obtain t' l' where "r = (t', l')" by (cases r)
    with Inr show ?thesis by (simp add: clone_latest_stages)
  qed
  have A: "\<forall>pre fn post. ?tr = pre @ AskOverwrite fn # post \<longrightarrow>
      (\<forall>a\<in>set pre. \<not> touches_file a)"
  proof (intro allI impI)
    fix pre fn post
    assume tr: "?tr = pre @ AskOverwrite fn # post"
    from stage show "\<forall>a\<in>set pre. \<not> touches_file a"
    proof
      assume "\<exists>e. validate_and_select w (strip src) (strip dst) = Inl e \<and> ?tr = []"
      with tr show ?thesis by simp
    next
      assume "\<exists>t' l'. validate_and_select w (strip src) (strip dst) = Inr (t', l') \<and>
         clone_latest w src dst answer = name_and_copy w answer t' (strip dst) l'"
      then obtain t' l' where
        eq: "clone_latest w src dst answer = name_and_copy w answer t' (strip dst) l'" by blast
      from tr[unfolded eq] show ?thesis by (rule name_and_copy_asks_first)
    qed
  qed
  have B: "validate_and_select w (strip src) (strip dst) = Inr (t, latest) \<and>
    match_base_version (fst (splitext (basename latest))) = Some bb \<and>
    makedirs_error w (strip dst) = None \<and>
    files w (join (strip dst) (bb @ ''_v001.ma'')) \<noteq> None \<longrightarrow>
      (\<exists>rest. ?tr = [MakeDirs (strip dst), AskOverwrite (bb @ ''_v001.ma'')] @ rest) \<and>
      clone_latest w src dst False =
        (Cancelled, [MakeDirs (strip dst), AskOverwrite (bb @ ''_v001.ma'')],
         w\<lparr>isdir := (isdir w)(strip dst := True)\<rparr>)"
  proof
    assume a: "validate_and_select w (strip src) (strip dst) = Inr (t, latest) \<and>
      match_base_version (fst (splitext (basename latest))) = Some bb \<and>
      makedirs_error w (strip dst) = None \<and>
      files w (join (strip dst) (bb @ ''_v001.ma'')) \<noteq> None"
    then have h: "match_base_version (fst (splitext (basename latest))) = Some bb"
      "makedirs_error w (strip dst) = None"
      "files w (join (strip dst) (bb @ ''_v001.ma'')) \<noteq> None" by simp_all
    from a have eq: "clone_latest w src dst answer = name_and_copy w answer t (strip dst) latest"
      "clone_latest w src dst False = name_and_copy w False t (strip dst) latest"
      by (simp_all add: clone_latest_stages)
    have 1: "\<exists>rest. ?tr = [MakeDirs (strip dst), AskOverwrite (bb @ ''_v001.ma'')] @ rest"
      unfolding eq(1) by (rule name_and_copy_asks_when_exists[OF h])
    have 2: "clone_latest w src dst False =
          (Cancelled, [MakeDirs (strip dst), AskOverwrite (bb @ ''_v001.ma'')],
           w\<lparr>isdir := (isdir w)(strip dst := True)\<rparr>)"
      unfolding eq(2) by (rule name_and_copy_declined[OF h])
    from 1 2 show "(\<exists>rest. ?tr = [MakeDirs (strip dst), AskOverwrite (bb @ ''_v001.ma'')] @ rest) \<and>
      clone_latest w src dst False =
        (Cancelled, [MakeDirs (strip dst), AskOverwrite (bb @ ''_v001.ma'')],
         w\<lparr>isdir := (isdir w)(strip dst := True)\<rparr>)" by (rule conjI)
  qed
  have S: "\<forall>y c. WriteFile y c \<in> set ?tr \<and> files w y \<noteq> None \<longrightarrow>
      answer \<and>
      (\<exists>fn pre post. ?tr = pre @ AskOverwrite fn # post \<and>
         y = join (strip dst) fn \<and> (\<forall>a\<in>set pre. \<not> touches_file a) \<and>
         WriteFile y c \<in> set post)"
  proof (intro allI impI)
    fix y c
    assume a: "WriteFile y c \<in> set ?tr \<and> files w y \<noteq> None"
    from stage show "answer \<and>
      (\<exists>fn pre post. ?tr = pre @ AskOverwrite fn # post \<and>
         y = join (strip dst) fn \<and> (\<forall>a\<in>set pre. \<not> touches_file a) \<and>
         WriteFile y c \<in> set post)"
    proof
      assume "\<exists>e. validate_and_select w (strip src) (strip dst) = Inl e \<and> ?tr = []"
      with a show ?thesis by simp
    next
      assume "\<exists>t' l'. validate_and_select w (strip src) (strip dst) = Inr (t', l') \<and>
         clone_latest w src dst answer = name_and_copy w answer t' (strip dst) l'"
      then obtain t' l' where
        eq: "clone_latest w src dst answer = name_and_copy w answer t' (strip dst) l'" by blast
      from a have "WriteFile y c \<in> set (fst (snd (name_and_copy w answer t' (strip dst) l')))"
        "files w y \<noteq> None" unfolding eq by simp_all
      from name_and_copy_write_existing[OF this] show ?thesis unfolding eq .
    qed
  qed
  have N: "\<forall>fn. AskOverwrite fn \<in> set ?tr \<longrightarrow> files w (join (strip dst) fn) \<noteq> None"
  proof (intro allI impI)
    fix fn assume a: "AskOverwrite fn \<in> set ?tr"
    from stage show "files w (join (strip dst) fn) \<noteq> None"
    proof
      assume "\<exists>e. validate_and_select w (strip src) (strip dst) = Inl e \<and> ?tr = []"
      with a show ?thesis by simp
    next
      assume "\<exists>t' l'. validate_and_select w (strip src) (strip dst) = Inr (t', l') \<and>
         clone_latest w src dst answer = name_and_copy w answer t' (strip dst) l'"
      then obtain t' l' where
        eq: "clone_latest w src dst answer = name_and_copy w answer t' (strip dst) l'" by blast
      from a[unfolded eq] show ?thesis by (rule name_and_copy_asks_only_existing)
    qed
  qed
  have C: "fst (clone_latest w src dst answer) = Cancelled \<longrightarrow>
      \<not> answer \<and> files (snd (snd (clone_latest w src dst answer))) = files w \<and>
      (\<forall>a\<in>set ?tr. \<not> touches_file a) \<and> (\<exists>fn. AskOverwrite fn \<in> set ?tr)"
  proof
    assume c: "fst (clone_latest w src dst answer) = Cancelled"
    from stage show "\<not> answer \<and> files (snd (snd (clone_latest w src dst answer))) = files w \<and>
        (\<forall>a\<in>set ?tr. \<not> touches_file a) \<and> (\<exists>fn. AskOverwrite fn \<in> set ?tr)"
    proof
      assume "\<exists>e. validate_and_select w (strip src) (strip dst) = Inl e \<and> ?tr = []"
      with c show ?thesis by (auto simp: clone_latest_stages)
    next
      assume "\<exists>t' l'. validate_and_select w (strip src) (strip dst) = Inr (t', l') \<and>
         clone_latest w src dst answer = name_and_copy w answer t' (strip dst) l'"
      then obtain t' l' where
        eq: "clone_latest w src dst answer = name_and_copy w answer t' (strip dst) l'" by blast
      from name_and_copy_Cancelled[OF c[unfolded eq]] show ?thesis unfolding eq .
    qed
  qed
  have D: "\<forall>p. files w p \<noteq> None \<longrightarrow>
      files (snd (snd (clone_latest w src dst False))) p = files w p"
    using clone_latest_declined_keeps by blast
  have E: "fst (clone_latest w src dst answer) = Success x y z \<longrightarrow>
      files (snd (snd (clone_latest w src dst answer))) y \<noteq> None \<and>
      files (snd (snd (clone_latest (snd (snd (clone_latest w src dst answer))) src dst False))) y =
        files (snd (snd (clone_latest w src dst answer))) y \<and>
      (walk (snd (snd (clone_latest w src dst answer)))
         (files (snd (snd (clone_latest w src dst answer)))) (strip src) =
       walk w (files w) (strip src) \<longrightarrow>
       fst (clone_latest (snd (snd (clone_latest w src dst answer))) src dst False) = Cancelled \<and>
       files (snd (snd (clone_latest (snd (snd (clone_latest w src dst answer))) src dst False))) =
         files (snd (snd (clone_latest w src dst answer))))"
  proof
    assume s: "fst (clone_latest w src dst answer) = Success x y z"
    let ?w1 = "snd (snd (clone_latest w src dst answer))"
    from clone_latest_Success[OF s] obtain c' where
      "?w1 = w\<lparr>isdir := (isdir w)(strip dst := True), files := (files w)(y \<mapsto> c')\<rparr>"
      by blast
    then have 1: "files ?w1 y \<noteq> None" by simp
    have 2: "files (snd (snd (clone_latest ?w1 src dst False))) y = files ?w1 y"
      by (rule clone_latest_declined_keeps[OF 1])
    have 3: "walk ?w1 (files ?w1) (strip src) = walk w (files w) (strip src) \<longrightarrow>
       fst (clone_latest ?w1 src dst False) = Cancelled \<and>
       files (snd (snd (clone_latest ?w1 src dst False))) = files ?w1"
      using second_run_declined[OF s] by blast
    from 1 2 3 show "files ?w1 y \<noteq> None \<and>
      files (snd (snd (clone_latest ?w1 src dst False))) y = files ?w1 y \<and>
      (walk ?w1 (files ?w1) (strip src) = walk w (files w) (strip src) \<longrightarrow>
       fst (clone_latest ?w1 src dst False) = Cancelled \<and>
       files (snd (snd (clone_latest ?w1 src dst False))) = files ?w1)"
      by blast
  qed
  show ?thesis
    by (rule conjI[OF A conjI[OF B conjI[OF S conjI[OF N conjI[OF C conjI[OF D E]]]]]])
qed

theorem C7_overwrite_confirmation_witness:
  "fst (clone_latest studio ''/show/ep_01/sq_010/sh_020/work'' ''/show/ep_02/sq_020/sh_030/work''
          True) =
     Success ''/show/ep_01/sq_010/sh_020/work/lighting_v003.ma''
       ''/show/ep_02/sq_020/sh_030/work/lighting_v001.ma''
       [(''ep_01'', ''ep_02''), (''sq_010'', ''sq_020''), (''sh_020'', ''sh_030'')] \<and>
   fst (clone_latest
          (snd (snd (clone_latest studio ''/show/ep_01/sq_010/sh_020/work''
                       ''/show/ep_02/sq_020/sh_030/work'' True)))
          ''/show/ep_01/sq_010/sh_020/work'' ''/show/ep_02/sq_020/sh_030/work'' False) =
     Cancelled \<and>
   files (snd (snd (clone_latest
          (snd (snd (clone_latest studio ''/show/ep_01/sq_010/sh_020/work''
                       ''/show/ep_02/sq_020/sh_030/work'' True)))
          ''/show/ep_01/sq_010/sh_020/work'' ''/show/ep_02/sq_020/sh_030/work'' False))) =
     files (snd (snd (clone_latest studio ''/show/ep_01/sq_010/sh_020/work''
                       ''/show/ep_02/sq_020/sh_030/work'' True))) \<and>
   files studio_done ''/show/ep_02/sq_020/sh_030/work/lighting_v001.ma'' = Some ''an earlier copy'' \<and>
   (\<exists>fn pre post.
      fst (snd (clone_latest studio_done ''/show/ep_01/sq_010/sh_020/work''
                  ''/show/ep_02/sq_020/sh_030/work'' True)) = pre @ AskOverwrite fn # post \<and>
      (\<forall>a\<in>set pre. \<not> touches_file a) \<and>
      WriteFile ''/show/ep_02/sq_020/sh_030/work/lighting_v001.ma''
        ''file ep_02_sq_020_sh_030_lighting_v001; cache_v003'' \<in> set post) \<and>
   clone_latest studio_done ''/show/ep_01/sq_010/sh_020/work'' ''/show/ep_02/sq_020/sh_030/work''
     False =
     (Cancelled,
      [MakeDirs ''/show/ep_02/sq_020/sh_030/work'', AskOverwrite ''lighting_v001.ma''],
      studio_done\<lparr>isdir := (isdir studio_done)(''/show/ep_02/sq_020/sh_030/work'' := True)\<rparr>)"
proof -
  let ?s = "''/show/ep_01/sq_010/sh_020/work''"
  let ?d = "''/show/ep_02/sq_020/sh_030/work''"
  let ?x = "''/show/ep_01/sq_010/sh_020/work/lighting_v003.ma''"
  let ?y = "''/show/ep_02/sq_020/sh_030/work/lighting_v001.ma''"
  let ?z = "[(''ep_01'', ''ep_02''), (''sq_010'', ''sq_020''), (''sh_020'', ''sh_030'')]"
  let ?t = "\<lparr>old_ep = ''ep_01'', new_ep = ''ep_02'', old_sq = ''sq_010'', new_sq = ''sq_020'',
      old_sh = ''sh_020'', new_sh = ''sh_030''\<rparr>"
  let ?w1 = "snd (snd (clone_latest studio ?s ?d True))"
  have st: "strip ?s = ?s" "strip ?d = ?d" by code_simp+
  have h: "fst (clone_latest studio ?s ?d True) = Success ?x ?y ?z" by code_simp
  have wk: "walk ?w1 (files ?w1) (strip ?s) = walk studio (files studio) (strip ?s)"
    by code_simp
  note first = C7_overwrite_confirmation[where w = studio and src = ?s and dst = ?d and
      answer = True and x = ?x and y = ?y and z = ?z,
      THEN conjunct2, THEN conjunct2, THEN conjunct2, THEN conjunct2, THEN conjunct2,
      THEN conjunct2]
  from first h wk have 1: "fst (clone_latest ?w1 ?s ?d False) = Cancelled"
    "files (snd (snd (clone_latest ?w1 ?s ?d False))) = files ?w1"
    by blast+
  have f: "files studio_done ?y = Some ''an earlier copy''"
    by (simp add: studio_done_def)
  have wr: "WriteFile ?y ''file ep_02_sq_020_sh_030_lighting_v001; cache_v003''
              \<in> set (fst (snd (clone_latest studio_done ?s ?d True)))"
    by code_simp
  have fne: "files studio_done ?y \<noteq> None" using f by simp
  note again = C7_overwrite_confirmation[where w = studio_done and src = ?s and dst = ?d and
      answer = True, THEN conjunct2, THEN conjunct2, THEN conjunct1, THEN spec, THEN spec,
      THEN mp, OF conjI[OF wr fne], THEN conjunct2]
  from again have 2: "\<exists>fn pre post.
      fst (snd (clone_latest studio_done ?s ?d True)) = pre @ AskOverwrite fn # post \<and>
      (\<forall>a\<in>set pre. \<not> touches_file a) \<and>
      WriteFile ?y ''file ep_02_sq_020_sh_030_lighting_v001; cache_v003'' \<in> set post"
    by blast
  have v: "validate_and_select studio_done (strip ?s) (strip ?d) = Inr (?t, ?x)"
    by code_simp
  have m: "match_base_version (fst (splitext (basename ?x))) = Some ''lighting''"
    by code_simp
  have e: "makedirs_error studio_done (strip ?d) = None"
    by (simp add: studio_done_def studio_def)
  have j: "join ?d (''lighting'' @ ''_v001.ma'') = ?y" by code_simp
  have fe: "files studio_done (join (strip ?d) (''lighting'' @ ''_v001.ma'')) \<noteq> None"
    unfolding st j using f by simp
  from C7_overwrite_confirmation[where w = studio_done and src = ?s and dst = ?d and
      t = ?t and latest = ?x and bb = "''lighting''", THEN conjunct2, THEN conjunct1] v m e fe
  have 3: "clone_latest studio_done ?s ?d False =
     (Cancelled, [MakeDirs ?d, AskOverwrite ''lighting_v001.ma''],
      studio_done\<lparr>isdir := (isdir studio_done)(?d := True)\<rparr>)"
    unfolding st by simp
  from h 1 f 2 3 show ?thesis by blast
qed

section \<open>The content rewrite\<close>

lemma rewrite_content_substitutions:
  "rewrite_content t fn nfn bn bb c = apply_substitutions (substitutions t fn nfn bn bb) c"
  by (simp add: rewrite_content_def substitutions_def apply_substitutions_def Let_def)

lemma replace_first_occurrence:
  "old \<noteq> [] \<Longrightarrow> \<not> sublist old (u @ butlast old) \<Longrightarrow>
   replace old new (u @ old @ v) = u @ new @ replace old new v"
  by (simp add: replace_def replace_ne_first_occurrence)

text \<open>
  C3 (as amended). The rewrite is five literal replacements in a fixed order, each
  applied to the whole result of the one before: episode, sequence and shot token, the
  old file name with extension to the new file name, and last the old file name without
  extension (version included) to the base name with \<open>_v001\<close>. One replacement leaves a
  text without the old string as it is, and otherwise replaces the leftmost occurrence
  and goes on behind it, so the occurrences replaced do not overlap. A successful run
  reads the source file, computes the whole new content from what it read, and then
  writes it to the destination file in one write, the last call it makes.
\<close>

theorem C3_five_replacements_in_order:
  "rewrite_content t fn nfn bn bb c = apply_substitutions (substitutions t fn nfn bn bb) c \<and>
   substitutions t fn nfn bn bb =
     [(old_ep t, new_ep t), (old_sq t, new_sq t), (old_sh t, new_sh t), (fn, nfn),
      (bn, bb @ ''_v001'')] \<and>
   apply_substitutions [] c = c \<and>
   apply_substitutions ((old, new) # ps) c = apply_substitutions ps (replace old new c) \<and>
   (\<not> sublist old s \<longrightarrow> replace old new s = s) \<and>
   (old \<noteq> [] \<and> \<not> sublist old (u @ butlast old) \<longrightarrow>
      replace old new (u @ old @ v) = u @ new @ replace old new v) \<and>
   (fst (clone_latest w src dst answer) = Success x y z \<longrightarrow>
      (\<exists>base content ask.
         match_base_version (fst (splitext (basename x))) = Some base \<and>
         files w x = Some content \<and>
         y = join (strip dst) (base @ ''_v001.ma'') \<and>
         fst (snd (clone_latest w src dst answer)) =
           [MakeDirs (strip dst)] @ ask @
           [ReadFile x,
            WriteFile y (apply_substitutions
                           (z @ [(basename x, base @ ''_v001.ma''),
                                 (fst (splitext (basename x)), base @ ''_v001'')]) content)] \<and>
         files (snd (snd (clone_latest w src dst answer))) =
           (files w)(y \<mapsto> apply_substitutions
                              (z @ [(basename x, base @ ''_v001.ma''),
                                    (fst (splitext (basename x)), base @ ''_v001'')]) content)))"
proof -
  have A: "rewrite_content t fn nfn bn bb c = apply_substitutions (substitutions t fn nfn bn bb) c"
    by (rule rewrite_content_substitutions)
  have B: "substitutions t fn nfn bn bb =
     [(old_ep t, new_ep t), (old_sq t, new_sq t), (old_sh t, new_sh t), (fn, nfn),
      (bn, bb @ ''_v001'')]"
    by (simp add: substitutions_def)
  have C: "apply_substitutions [] c = c" by (simp add: apply_substitutions_def)
  have D: "apply_substitutions ((old, new) # ps) c = apply_substitutions ps (replace old new c)"
    by (simp add: apply_substitutions_def)
  have E: "\<not> sublist old s \<longrightarrow> replace old new s = s"
    by (simp add: replace_absent)
  have F: "old \<noteq> [] \<and> \<not> sublist old (u @ butlast old) \<longrightarrow>
      replace old new (u @ old @ v) = u @ new @ replace old new v"
    by (simp add: replace_first_occurrence)
  have G: "fst (clone_latest w src dst answer) = Success x y z \<longrightarrow>
      (\<exists>base content ask.
         match_base_version (fst (splitext (basename x))) = Some base \<and>
         files w x = Some content \<and>
         y = join (strip dst) (base @ ''_v001.ma'') \<and>
         fst (snd (clone_latest w src dst answer)) =
           [MakeDirs (strip dst)] @ ask @
           [ReadFile x,
            WriteFile y (apply_substitutions
                           (z @ [(basename x, base @ ''_v001.ma''),
                                 (fst (splitext (basename x)), base @ ''_v001'')]) content)] \<and>
         files (snd (snd (clone_latest w src dst answer))) =
           (files w)(y \<mapsto> apply_substitutions
                              (z @ [(basename x, base @ ''_v001.ma''),
                                    (fst (splitext (basename x)), base @ ''_v001'')]) content))"
  proof
    assume s: "fst (clone_latest w src dst answer) = Success x y z"
    from clone_latest_Success[OF s] obtain t' base content ask where
      h: "match_base_version (fst (splitext (basename x))) = Some base"
         "y = join (strip dst) (base @ ''_v001.ma'')"
         "z = [(old_ep t', new_ep t'), (old_sq t', new_sq t'), (old_sh t', new_sh t')]"
         "files w x = Some content"
         "fst (snd (clone_latest w src dst answer)) =
              [MakeDirs (strip dst)] @ ask @
              [ReadFile x,
               WriteFile y (rewrite_content t' (basename x) (base @ ''_v001.ma'')
                              (fst (splitext (basename x))) base content)]"
         "snd (snd (clone_latest w src dst answer)) =
             w\<lparr>isdir := (isdir w)(strip dst := True),
               files := (files w)(y \<mapsto> rewrite_content t' (basename x) (base @ ''_v001.ma'')
                                         (fst (splitext (basename x))) base content)\<rparr>"
      by blast
    have r: "rewrite_content t' (basename x) (base @ ''_v001.ma'')
               (fst (splitext (basename x))) base content =
             apply_substitutions
               (z @ [(basename x, base @ ''_v001.ma''),
                     (fst (splitext (basename x)), base @ ''_v001'')]) content"
      by (simp add: rewrite_content_substitutions substitutions_def h(3))
    have "files (snd (snd (clone_latest w src dst answer))) =
           (files w)(y \<mapsto> apply_substitutions
                              (z @ [(basename x, base @ ''_v001.ma''),
                                    (fst (splitext (basename x)), base @ ''_v001'')]) content)"
      unfolding h(6) r by simp
    with h(1,2,4) h(5)[unfolded r] show "\<exists>base content ask.
         match_base_version (fst (splitext (basename x))) = Some base \<and>
         files w x = Some content \<and>
         y = join (strip dst) (base @ ''_v001.ma'') \<and>
         fst (snd (clone_latest w src dst answer)) =
           [MakeDirs (strip dst)] @ ask @
           [ReadFile x,
            WriteFile y (apply_substitutions
                           (z @ [(basename x, base @ ''_v001.ma''),
                                 (fst (splitext (basename x)), base @ ''_v001'')]) content)] \<and>
         files (snd (snd (clone_latest w src dst answer))) =
           (files w)(y \<mapsto> apply_substitutions
                              (z @ [(basename x, base @ ''_v001.ma''),
                                    (fst (splitext (basename x)), base @ ''_v001'')]) content)"
      by blast
  qed
  show ?thesis
    by (rule conjI[OF A conjI[OF B conjI[OF C conjI[OF D conjI[OF E conjI[OF F G]]]]]])
qed

theorem C3_five_replacements_in_order_witness:
  "fst (clone_latest studio ''/show/ep_01/sq_010/sh_020/work'' ''/show/ep_02/sq_020/sh_030/work''
          False) =
     Success ''/show/ep_01/sq_010/sh_020/work/lighting_v003.ma''
       ''/show/ep_02/sq_020/sh_030/work/lighting_v001.ma''
       [(''ep_01'', ''ep_02''), (''sq_010'', ''sq_020''), (''sh_020'', ''sh_030'')] \<and>
   files (snd (snd (clone_latest studio ''/show/ep_01/sq_010/sh_020/work''
                      ''/show/ep_02/sq_020/sh_030/work'' False)))
     ''/show/ep_02/sq_020/sh_030/work/lighting_v001.ma'' =
     Some (apply_substitutions
             [(''ep_01'', ''ep_02''), (''sq_010'', ''sq_020''), (''sh_020'', ''sh_030''),
              (''lighting_v003.ma'', ''lighting_v001.ma''), (''lighting_v003'', ''lighting_v001'')]
             ''file ep_01_sq_010_sh_020_lighting_v003; cache_v003'') \<and>
   replace ''ab'' ''x'' (''c'' @ ''ab'' @ ''ab'') = ''c'' @ ''x'' @ replace ''ab'' ''x'' ''ab''"
proof -
  let ?x = "''/show/ep_01/sq_010/sh_020/work/lighting_v003.ma''"
  let ?y = "''/show/ep_02/sq_020/sh_030/work/lighting_v001.ma''"
  let ?z = "[(''ep_01'', ''ep_02''), (''sq_010'', ''sq_020''), (''sh_020'', ''sh_030'')]"
  let ?run = "clone_latest studio ''/show/ep_01/sq_010/sh_020/work''
                ''/show/ep_02/sq_020/sh_030/work'' False"
  have h: "fst ?run = Success ?x ?y ?z" by code_simp
  have b: "basename ?x = ''lighting_v003.ma''"
    "fst (splitext ''lighting_v003.ma'') = ''lighting_v003''"
    "match_base_version ''lighting_v003'' = Some ''lighting''"
    by code_simp+
  have f: "files studio ?x = Some ''file ep_01_sq_010_sh_020_lighting_v003; cache_v003''"
    by (simp add: studio_def)
  have n: "\<not> sublist ''ab'' (''c'' @ butlast ''ab'')" by code_simp
  note inst = C3_five_replacements_in_order[where old = "''ab''" and new = "''x''" and
      u = "''c''" and v = "''ab''" and w = studio and
      src = "''/show/ep_01/sq_010/sh_020/work''" and dst = "''/show/ep_02/sq_020/sh_030/work''" and
      answer = False and x = ?x and y = ?y and z = ?z]
  from inst h obtain base content where
    g: "match_base_version (fst (splitext (basename ?x))) = Some base"
       "files studio ?x = Some content"
       "files (snd (snd ?run)) =
           (files studio)(?y \<mapsto> apply_substitutions
                              (?z @ [(basename ?x, base @ ''_v001.ma''),
                                    (fst (splitext (basename ?x)), base @ ''_v001'')]) content)"
    by blast
  from g(1) b have base: "base = ''lighting''" by simp
  from g(2) f have content: "content = ''file ep_01_sq_010_sh_020_lighting_v003; cache_v003''"
    by simp
  have w: "files (snd (snd ?run)) ?y =
     Some (apply_substitutions
             [(''ep_01'', ''ep_02''), (''sq_010'', ''sq_020''), (''sh_020'', ''sh_030''),
              (''lighting_v003.ma'', ''lighting_v001.ma''), (''lighting_v003'', ''lighting_v001'')]
             ''file ep_01_sq_010_sh_020_lighting_v003; cache_v003'')"
    unfolding g(3) base content b by simp
  from inst n have r: "replace ''ab'' ''x'' (''c'' @ ''ab'' @ ''ab'') =
      ''c'' @ ''x'' @ replace ''ab'' ''x'' ''ab''"
    by blast
  from h w r show ?thesis by blast
qed

text \<open>
  The fifth step as the claim words it (the name without its version is what is
  replaced) gives another text than the code: the version digits stay behind
  \<open>_v001\<close>.
\<close>

theorem C3_counterexample:
  "rewrite_content
     \<lparr>old_ep = ''ep_01'', new_ep = ''ep_02'', old_sq = ''sq_010'', new_sq = ''sq_020'',
      old_sh = ''sh_020'', new_sh = ''sh_030''\<rparr>
     ''lighting_v003.ma'' ''lighting_v001.ma'' ''lighting_v003'' ''lighting''
     ''file lighting_v003'' = ''file lighting_v001'' \<and>
   rewrite_as_specified
     \<lparr>old_ep = ''ep_01'', new_ep = ''ep_02'', old_sq = ''sq_010'', new_sq = ''sq_020'',
      old_sh = ''sh_020'', new_sh = ''sh_030''\<rparr>
     ''lighting_v003.ma'' ''lighting_v001.ma'' ''lighting''
     ''file lighting_v003'' = ''file lighting_v001_v003''"
  by code_simp

section \<open>What the rewrite removes and what it keeps\<close>

lemma drop_append_left: "n \<le> length xs \<Longrightarrow> drop n (xs @ ys) = drop n xs @ ys"
  by simp

lemma split_index:
  assumes "old = x1 @ x2" "x1 \<noteq> []" "x2 \<noteq> []"
  shows "length x1 \<in> set [1..<length old]"
proof -
  have "Suc 0 \<le> length x1" "0 < length x2"
    using assms(2,3) by (simp_all add: Suc_le_eq)
  then show ?thesis by (simp add: assms(1))
qed

lemma replace_ne_append:
  assumes "\<And>x1 x2. old = x1 @ x2 \<Longrightarrow> x1 \<noteq> [] \<Longrightarrow> x2 \<noteq> [] \<Longrightarrow> suffix x1 s1 \<Longrightarrow>
             prefix x2 s2 \<Longrightarrow> False"
  shows "replace_ne old new (s1 @ s2) = replace_ne old new s1 @ replace_ne old new s2"
  using assms
proof (induction old new s1 rule: replace_ne.induct)
  case (1 old new)
  then show ?case by simp
next
  case (2 old new c cs)
  show ?case
  proof (cases "old \<noteq> [] \<and> prefix old (c # cs)")
    case True
    then have le: "length old \<le> length (c # cs)" by (auto dest: prefix_length_le)
    have dr: "drop (length old) ((c # cs) @ s2) = drop (length old) (c # cs) @ s2"
      using le by (rule drop_append_left)
    have ih: "replace_ne old new (drop (length old) (c # cs) @ s2) =
              replace_ne old new (drop (length old) (c # cs)) @ replace_ne old new s2"
    proof (rule "2.IH"(1)[OF True])
      fix x1 x2 assume "old = x1 @ x2" "x1 \<noteq> []" "x2 \<noteq> []"
        "suffix x1 (drop (length old) (c # cs))" "prefix x2 s2"
      moreover from this(4) have "suffix x1 (c # cs)" by (meson suffix_drop suffix_order.trans)
      ultimately show False using "2.prems" by blast
    qed
    from True have p: "prefix old ((c # cs) @ s2)" by (simp add: prefix_append del: append.simps)
    have "replace_ne old new ((c # cs) @ s2) =
          new @ replace_ne old new (drop (length old) ((c # cs) @ s2))"
      using True p by simp
    also have "\<dots> = new @ replace_ne old new (drop (length old) (c # cs)) @ replace_ne old new s2"
      unfolding dr ih by simp
    also have "\<dots> = replace_ne old new (c # cs) @ replace_ne old new s2"
      using True by simp
    finally show ?thesis .
  next
    case False
    have np: "\<not> (old \<noteq> [] \<and> prefix old ((c # cs) @ s2))"
    proof
      assume a: "old \<noteq> [] \<and> prefix old ((c # cs) @ s2)"
      with False have "\<not> prefix old (c # cs)" by simp
      with a obtain us where us: "old = (c # cs) @ us" "prefix us s2"
        by (auto simp: prefix_append simp del: append.simps)
      with \<open>\<not> prefix old (c # cs)\<close> have "us \<noteq> []" by auto
      with us "2.prems"[of "c # cs" us] show False by simp
    qed
    have ih: "replace_ne old new (cs @ s2) = replace_ne old new cs @ replace_ne old new s2"
    proof (rule "2.IH"(2)[OF False])
      fix x1 x2 assume "old = x1 @ x2" "x1 \<noteq> []" "x2 \<noteq> []" "suffix x1 cs" "prefix x2 s2"
      moreover from this(4) have "suffix x1 (c # cs)" by (simp add: suffix_Cons)
      ultimately show False using "2.prems" by blast
    qed
    from np have "replace_ne old new ((c # cs) @ s2) = c # replace_ne old new (cs @ s2)"
      by auto
    with ih False show ?thesis by auto
  qed
qed

lemma overhang_afterI:
  assumes "old = x1 @ x2" "x1 \<noteq> []" "x2 \<noteq> []" "suffix x1 m"
  shows "x2 \<in> set (overhang_after old m)"
proof -
  have "length x1 \<in> set [1..<length old]" using assms(1,2,3) by (rule split_index)
  moreover have "take (length x1) old = x1" "drop (length x1) old = x2"
    using assms(1) by simp_all
  ultimately show ?thesis
    unfolding overhang_after_def using assms(4) by force
qed

lemma overhang_beforeI:
  assumes "old = x1 @ x2" "x1 \<noteq> []" "x2 \<noteq> []" "prefix x2 m"
  shows "x1 \<in> set (overhang_before old m)"
proof -
  have "length x1 \<in> set [1..<length old]" using assms(1,2,3) by (rule split_index)
  moreover have "take (length x1) old = x1" "drop (length x1) old = x2"
    using assms(1) by simp_all
  ultimately show ?thesis
    unfolding overhang_before_def using assms(4) by force
qed

lemma replace_middle:
  assumes old: "old \<noteq> []" and len: "length old \<le> Suc (length m)"
    and before: "overhang_before old m = []"
    and after: "\<And>x. x \<in> set (overhang_after old m) \<Longrightarrow> \<not> prefix x q"
  shows "replace old new (p @ m @ q) = replace old new p @ replace old new m @ replace old new q"
proof -
  have 1: "replace_ne old new (p @ (m @ q)) = replace_ne old new p @ replace_ne old new (m @ q)"
  proof (rule replace_ne_append)
    fix x1 x2 assume h: "old = x1 @ x2" "x1 \<noteq> []" "x2 \<noteq> []" "suffix x1 p" "prefix x2 (m @ q)"
    from h(1,2) len have "length x2 \<le> length m" by (cases x1) auto
    with h(5) have "prefix x2 m" by (auto simp: prefix_append dest: prefix_length_le)
    from overhang_beforeI[OF h(1,2,3) this] before show False by simp
  qed
  have 2: "replace_ne old new (m @ q) = replace_ne old new m @ replace_ne old new q"
  proof (rule replace_ne_append)
    fix x1 x2 assume h: "old = x1 @ x2" "x1 \<noteq> []" "x2 \<noteq> []" "suffix x1 m" "prefix x2 q"
    from overhang_afterI[OF h(1,2,3,4)] after h(5) show False by blast
  qed
  from 1 2 old show ?thesis by (simp add: replace_def)
qed

lemma replace_middle_sublist:
  assumes old: "old \<noteq> []" and len: "length old \<le> Suc (length m)"
    and before: "overhang_before old m = []"
    and after: "\<And>x. x \<in> set (overhang_after old m) \<Longrightarrow> \<not> sublist (m @ x) s"
    and sub: "sublist m s"
  shows "sublist (replace old new m) (replace old new s)"
proof -
  from sub obtain p q where s: "s = p @ m @ q" by (auto simp: sublist_def)
  have "replace old new (p @ m @ q) = replace old new p @ replace old new m @ replace old new q"
  proof (rule replace_middle[OF old len before])
    fix x assume x: "x \<in> set (overhang_after old m)"
    show "\<not> prefix x q"
    proof
      assume "prefix x q"
      then obtain q' where "q = x @ q'" by (auto simp: prefix_def)
      then have "s = p @ (m @ x) @ q'" using s by simp
      then have "sublist (m @ x) s" unfolding sublist_def by blast
      with after[OF x] show False by simp
    qed
  qed
  then show ?thesis unfolding s by (metis sublist_appendI)
qed

lemma apply_substitutions_Nil: "apply_substitutions [] c = c"
  by (simp add: apply_substitutions_def)

lemma apply_substitutions_Cons:
  "apply_substitutions ((old, new) # ps) c = apply_substitutions ps (replace old new c)"
  by (simp add: apply_substitutions_def)

lemma apply_substitutions_append:
  "apply_substitutions (ps @ qs) c = apply_substitutions qs (apply_substitutions ps c)"
  by (simp add: apply_substitutions_def)

lemma apply_substitutions_absent:
  "\<forall>p\<in>set ps. \<not> sublist (fst p) c \<Longrightarrow> apply_substitutions ps c = c"
proof (induction ps)
  case Nil
  then show ?case by (simp add: apply_substitutions_Nil)
next
  case (Cons a ps)
  obtain old new where a: "a = (old, new)" by (cases a)
  have "\<not> sublist old c" using Cons.prems a by simp
  then have "replace old new c = c" by (rule replace_absent)
  moreover have "apply_substitutions ps c = c" using Cons by simp
  ultimately show ?case by (simp add: a apply_substitutions_Cons)
qed

lemma apply_substitutions_keeps_absent:
  "never_recreated x ps \<Longrightarrow> \<not> sublist x c \<Longrightarrow> \<not> sublist x (apply_substitutions ps c)"
proof (induction ps arbitrary: c)
  case Nil
  then show ?case by (simp add: apply_substitutions_Nil)
next
  case (Cons a ps)
  obtain old new where a: "a = (old, new)" by (cases a)
  from Cons.prems(1) a have h: "old \<noteq> []" "cannot_form x new" "never_recreated x ps"
    by (simp_all add: never_recreated_def)
  have "\<not> sublist x (replace old new c)"
    by (rule replace_keeps_absent[OF h(1,2) Cons.prems(2)])
  from Cons.IH[OF h(3) this] show ?case by (simp add: a apply_substitutions_Cons)
qed

lemma apply_substitutions_removes:
  assumes "never_recreated x ((x, nx) # ps2)"
  shows "\<not> sublist x (apply_substitutions (ps1 @ (x, nx) # ps2) c)"
proof -
  from assms have h: "x \<noteq> []" "cannot_form x nx" "never_recreated x ps2"
    by (simp_all add: never_recreated_def)
  have "\<not> sublist x (replace x nx (apply_substitutions ps1 c))"
    by (rule replace_removes_old[OF h(1,2)])
  from apply_substitutions_keeps_absent[OF h(3) this]
  show ?thesis by (simp add: apply_substitutions_append apply_substitutions_Cons)
qed

lemma sublist_trans: "sublist a b \<Longrightarrow> sublist b c \<Longrightarrow> sublist a c"
  unfolding sublist_def by (metis append.assoc)

lemma rewrite_content_token_steps:
  "rewrite_content t fn nfn bn bb c =
     apply_substitutions [(fn, nfn), (bn, bb @ ''_v001'')]
       (apply_substitutions
          [(old_ep t, new_ep t), (old_sq t, new_sq t), (old_sh t, new_sh t)] c)"
  by (simp add: rewrite_content_substitutions substitutions_def apply_substitutions_def)




text \<open>
  C10 (as amended). Let the selected file name, without its extension, contain an old
  episode, sequence or shot token that its own replacement and the replacements of the
  token steps after it cannot re-create (in particular the token differs from its
  replacement). Then after the three token steps the content has no occurrence of the old
  file name, with or without extension: the fourth and fifth step change nothing, and the
  result is the content after the token steps, where a former occurrence of the file name
  has its tokens changed and its version digits as they were.
\<close>

theorem C10_token_in_file_name:
  "[(old_ep t, new_ep t), (old_sq t, new_sq t), (old_sh t, new_sh t)] = earlier @ (x, nx) # later \<and>
   never_recreated x ((x, nx) # later) \<and> sublist x bn \<and> sublist bn fn \<longrightarrow>
   \<not> sublist fn (apply_substitutions
                    [(old_ep t, new_ep t), (old_sq t, new_sq t), (old_sh t, new_sh t)] c) \<and>
   \<not> sublist bn (apply_substitutions
                    [(old_ep t, new_ep t), (old_sq t, new_sq t), (old_sh t, new_sh t)] c) \<and>
   rewrite_content t fn nfn bn bb c =
     apply_substitutions [(old_ep t, new_ep t), (old_sq t, new_sq t), (old_sh t, new_sh t)] c"
proof
  let ?tp = "[(old_ep t, new_ep t), (old_sq t, new_sq t), (old_sh t, new_sh t)]"
  assume a: "?tp = earlier @ (x, nx) # later \<and> never_recreated x ((x, nx) # later) \<and>
             sublist x bn \<and> sublist bn fn"
  then have "\<not> sublist x (apply_substitutions (earlier @ (x, nx) # later) c)"
    by (intro apply_substitutions_removes) simp
  with a have nx: "\<not> sublist x (apply_substitutions ?tp c)" by simp
  from a have xb: "sublist x bn" and xf: "sublist x fn"
    by (auto intro: sublist_trans)
  have nb: "\<not> sublist bn (apply_substitutions ?tp c)"
    using nx xb by (auto dest: sublist_trans)
  have nf: "\<not> sublist fn (apply_substitutions ?tp c)"
    using nx xf by (auto dest: sublist_trans)
  have "\<forall>p\<in>set [(fn, nfn), (bn, bb @ ''_v001'')]. \<not> sublist (fst p) (apply_substitutions ?tp c)"
    using nb nf by simp
  then have "apply_substitutions [(fn, nfn), (bn, bb @ ''_v001'')] (apply_substitutions ?tp c) =
             apply_substitutions ?tp c"
    by (rule apply_substitutions_absent)
  then have "rewrite_content t fn nfn bn bb c = apply_substitutions ?tp c"
    by (simp only: rewrite_content_token_steps)
  with nb nf show "\<not> sublist fn (apply_substitutions ?tp c) \<and>
      \<not> sublist bn (apply_substitutions ?tp c) \<and>
      rewrite_content t fn nfn bn bb c = apply_substitutions ?tp c"
    by blast
qed

theorem C10_token_in_file_name_witness:
  "rewrite_content
     \<lparr>old_ep = ''ep_01'', new_ep = ''ep_02'', old_sq = ''sq_010'', new_sq = ''sq_020'',
      old_sh = ''sh_020'', new_sh = ''sh_030''\<rparr>
     ''ep_01_lighting_v003.ma'' ''ep_01_lighting_v001.ma'' ''ep_01_lighting_v003''
     ''ep_01_lighting'' ''file ep_01_lighting_v003.ma'' =
   apply_substitutions [(''ep_01'', ''ep_02''), (''sq_010'', ''sq_020''), (''sh_020'', ''sh_030'')]
     ''file ep_01_lighting_v003.ma'' \<and>
   apply_substitutions [(''ep_01'', ''ep_02''), (''sq_010'', ''sq_020''), (''sh_020'', ''sh_030'')]
     ''file ep_01_lighting_v003.ma'' = ''file ep_02_lighting_v003.ma''"
proof -
  let ?t = "\<lparr>old_ep = ''ep_01'', new_ep = ''ep_02'', old_sq = ''sq_010'', new_sq = ''sq_020'',
      old_sh = ''sh_020'', new_sh = ''sh_030''\<rparr>"
  have s: "[(old_ep ?t, new_ep ?t), (old_sq ?t, new_sq ?t), (old_sh ?t, new_sh ?t)] =
           [] @ (''ep_01'', ''ep_02'') # [(''sq_010'', ''sq_020''), (''sh_020'', ''sh_030'')]"
    by simp
  have r: "never_recreated ''ep_01''
             ((''ep_01'', ''ep_02'') # [(''sq_010'', ''sq_020''), (''sh_020'', ''sh_030'')])"
    by code_simp
  have b: "sublist ''ep_01'' ''ep_01_lighting_v003''"
    "sublist ''ep_01_lighting_v003'' ''ep_01_lighting_v003.ma''"
    by code_simp+
  have e: "apply_substitutions
             [(''ep_01'', ''ep_02''), (''sq_010'', ''sq_020''), (''sh_020'', ''sh_030'')]
             ''file ep_01_lighting_v003.ma'' = ''file ep_02_lighting_v003.ma''"
    by code_simp
  from C10_token_in_file_name[where t = ?t and earlier = "[]" and x = "''ep_01''" and
         nx = "''ep_02''" and later = "[(''sq_010'', ''sq_020''), (''sh_020'', ''sh_030'')]" and
         bn = "''ep_01_lighting_v003''" and fn = "''ep_01_lighting_v003.ma''" and
         c = "''file ep_01_lighting_v003.ma''" and nfn = "''ep_01_lighting_v001.ma''" and
         bb = "''ep_01_lighting''"] s r b
  have "rewrite_content ?t ''ep_01_lighting_v003.ma'' ''ep_01_lighting_v001.ma''
          ''ep_01_lighting_v003'' ''ep_01_lighting'' ''file ep_01_lighting_v003.ma'' =
        apply_substitutions
          [(''ep_01'', ''ep_02''), (''sq_010'', ''sq_020''), (''sh_020'', ''sh_030'')]
          ''file ep_01_lighting_v003.ma''"
    by simp
  with e show ?thesis by blast
qed

text \<open>
  Without the condition the fourth step can find the old file name: from \<open>ep_10\<close> to
  \<open>ep_1\<close>, the text \<open>ep_100_v3.ma\<close> becomes the old file name \<open>ep_10_v3.ma\<close> in the
  first step and is then given version \<open>001\<close>.
\<close>

theorem C10_counterexample:
  "sublist ''ep_10'' ''ep_10_v3.ma'' \<and> ''ep_10'' \<noteq> ''ep_1'' \<and>
   sublist ''ep_10_v3.ma'' ''ep_10_v3.ma ep_100_v3.ma'' \<and>
   sublist ''ep_10_v3.ma''
     (apply_substitutions [(''ep_10'', ''ep_1''), (''sq_1'', ''sq_2''), (''sh_1'', ''sh_2'')]
        ''ep_10_v3.ma ep_100_v3.ma'') \<and>
   rewrite_content
     \<lparr>old_ep = ''ep_10'', new_ep = ''ep_1'', old_sq = ''sq_1'', new_sq = ''sq_2'',
      old_sh = ''sh_1'', new_sh = ''sh_2''\<rparr>
     ''ep_10_v3.ma'' ''ep_10_v001.ma'' ''ep_10_v3'' ''ep_10'' ''ep_10_v3.ma ep_100_v3.ma'' =
   ''ep_1_v3.ma ep_10_v001.ma''"
  by code_simp

section \<open>The end-to-end scenario\<close>

lemma replace_piece:
  assumes "stays_whole old m" "sublist m s"
  shows "sublist (replace old new m) (replace old new s)"
proof -
  from assms(1) have h: "old \<noteq> []" "length old \<le> Suc (length m)"
    "overhang_before old m = []" "overhang_after old m = []"
    by (simp_all add: stays_whole_def)
  show ?thesis
    by (rule replace_middle_sublist[OF h(1,2,3) _ assms(2)]) (simp add: h(4))
qed

lemma scenario_keeps_reference:
  assumes "sublist ''ep_01_sq_010_sh_020_lighting_v003'' c"
  shows "sublist ''ep_02_sq_020_sh_030_lighting_v001''
           (apply_substitutions
              [(''ep_01'', ''ep_02''), (''sq_010'', ''sq_020''), (''sh_020'', ''sh_030''),
               (''lighting_v003.ma'', ''lighting_v001.ma''), (''lighting_v003'', ''lighting_v001'')]
              c)"
proof -
  let ?c1 = "replace ''ep_01'' ''ep_02'' c"
  let ?c2 = "replace ''sq_010'' ''sq_020'' ?c1"
  let ?c3 = "replace ''sh_020'' ''sh_030'' ?c2"
  let ?c4 = "replace ''lighting_v003.ma'' ''lighting_v001.ma'' ?c3"
  let ?c5 = "replace ''lighting_v003'' ''lighting_v001'' ?c4"
  have w1: "stays_whole ''ep_01'' ''ep_01_sq_010_sh_020_lighting_v003''" by code_simp
  have r1: "replace ''ep_01'' ''ep_02'' ''ep_01_sq_010_sh_020_lighting_v003'' =
            ''ep_02_sq_010_sh_020_lighting_v003''" by code_simp
  have s1: "sublist ''ep_02_sq_010_sh_020_lighting_v003'' ?c1"
    using replace_piece[OF w1 assms, of "''ep_02''"] unfolding r1 .
  have w2: "stays_whole ''sq_010'' ''ep_02_sq_010_sh_020_lighting_v003''" by code_simp
  have r2: "replace ''sq_010'' ''sq_020'' ''ep_02_sq_010_sh_020_lighting_v003'' =
            ''ep_02_sq_020_sh_020_lighting_v003''" by code_simp
  have s2: "sublist ''ep_02_sq_020_sh_020_lighting_v003'' ?c2"
    using replace_piece[OF w2 s1, of "''sq_020''"] unfolding r2 .
  have w3: "stays_whole ''sh_020'' ''ep_02_sq_020_sh_020_lighting_v003''" by code_simp
  have r3: "replace ''sh_020'' ''sh_030'' ''ep_02_sq_020_sh_020_lighting_v003'' =
            ''ep_02_sq_020_sh_030_lighting_v003''" by code_simp
  have s3: "sublist ''ep_02_sq_020_sh_030_lighting_v003'' ?c3"
    using replace_piece[OF w3 s2, of "''sh_030''"] unfolding r3 .
  have s5: "sublist ''ep_02_sq_020_sh_030_lighting_v001'' ?c5"
  proof (cases "sublist (''ep_02_sq_020_sh_030_lighting_v003'' @ ''.ma'') ?c3")
    case True
    then have t: "sublist ''ep_02_sq_020_sh_030_lighting_v003.ma'' ?c3" by simp
    have w4: "stays_whole ''lighting_v003.ma'' ''ep_02_sq_020_sh_030_lighting_v003.ma''"
      by code_simp
    have r4: "replace ''lighting_v003.ma'' ''lighting_v001.ma''
                ''ep_02_sq_020_sh_030_lighting_v003.ma'' =
              ''ep_02_sq_020_sh_030_lighting_v001.ma''" by code_simp
    have s4: "sublist ''ep_02_sq_020_sh_030_lighting_v001.ma'' ?c4"
      using replace_piece[OF w4 t, of "''lighting_v001.ma''"] unfolding r4 .
    have w5: "stays_whole ''lighting_v003'' ''ep_02_sq_020_sh_030_lighting_v001.ma''"
      by code_simp
    have r5: "replace ''lighting_v003'' ''lighting_v001''
                ''ep_02_sq_020_sh_030_lighting_v001.ma'' =
              ''ep_02_sq_020_sh_030_lighting_v001.ma''" by code_simp
    have "sublist ''ep_02_sq_020_sh_030_lighting_v001.ma'' ?c5"
      using replace_piece[OF w5 s4, of "''lighting_v001''"] unfolding r5 .
    moreover have "sublist ''ep_02_sq_020_sh_030_lighting_v001''
                     ''ep_02_sq_020_sh_030_lighting_v001.ma''" by code_simp
    ultimately show ?thesis by (rule sublist_trans[rotated])
  next
    case False
    have o: "overhang_after ''lighting_v003.ma'' ''ep_02_sq_020_sh_030_lighting_v003'' = [''.ma'']"
      by code_simp
    have b: "overhang_before ''lighting_v003.ma'' ''ep_02_sq_020_sh_030_lighting_v003'' = []"
      by code_simp
    have r4: "replace ''lighting_v003.ma'' ''lighting_v001.ma''
                ''ep_02_sq_020_sh_030_lighting_v003'' = ''ep_02_sq_020_sh_030_lighting_v003''"
      by code_simp
    have "sublist (replace ''lighting_v003.ma'' ''lighting_v001.ma''
                     ''ep_02_sq_020_sh_030_lighting_v003'') ?c4"
    proof (rule replace_middle_sublist[OF _ _ b _ s3])
      show "''lighting_v003.ma'' \<noteq> []" by simp
      show "length ''lighting_v003.ma'' \<le> Suc (length ''ep_02_sq_020_sh_030_lighting_v003'')"
        by simp
      fix x assume "x \<in> set (overhang_after ''lighting_v003.ma''
                                ''ep_02_sq_020_sh_030_lighting_v003'')"
      then have "x = ''.ma''" unfolding o by simp
      with False show "\<not> sublist (''ep_02_sq_020_sh_030_lighting_v003'' @ x) ?c3" by simp
    qed
    then have s4: "sublist ''ep_02_sq_020_sh_030_lighting_v003'' ?c4" unfolding r4 .
    have w5: "stays_whole ''lighting_v003'' ''ep_02_sq_020_sh_030_lighting_v003''"
      by code_simp
    have r5: "replace ''lighting_v003'' ''lighting_v001''
                ''ep_02_sq_020_sh_030_lighting_v003'' = ''ep_02_sq_020_sh_030_lighting_v001''"
      by code_simp
    show ?thesis
      using replace_piece[OF w5 s4, of "''lighting_v001''"] unfolding r5 .
  qed
  then show ?thesis by (simp add: apply_substitutions_def)
qed

lemma scenario_removes:
  assumes "out = apply_substitutions
              [(''ep_01'', ''ep_02''), (''sq_010'', ''sq_020''), (''sh_020'', ''sh_030''),
               (''lighting_v003.ma'', ''lighting_v001.ma''), (''lighting_v003'', ''lighting_v001'')]
              c"
  shows "\<not> sublist ''ep_01'' out" "\<not> sublist ''sq_010'' out" "\<not> sublist ''sh_020'' out"
    "\<not> sublist ''lighting_v003'' out"
proof -
  note out_def = assms
  have n1: "never_recreated ''ep_01''
      [(''ep_01'', ''ep_02''), (''sq_010'', ''sq_020''), (''sh_020'', ''sh_030''),
       (''lighting_v003.ma'', ''lighting_v001.ma''), (''lighting_v003'', ''lighting_v001'')]"
    by code_simp
  have n2: "never_recreated ''sq_010''
      [(''sq_010'', ''sq_020''), (''sh_020'', ''sh_030''),
       (''lighting_v003.ma'', ''lighting_v001.ma''), (''lighting_v003'', ''lighting_v001'')]"
    by code_simp
  have n3: "never_recreated ''sh_020''
      [(''sh_020'', ''sh_030''),
       (''lighting_v003.ma'', ''lighting_v001.ma''), (''lighting_v003'', ''lighting_v001'')]"
    by code_simp
  have n5: "never_recreated ''lighting_v003'' [(''lighting_v003'', ''lighting_v001'')]"
    by code_simp
  show "\<not> sublist ''ep_01'' out"
    using apply_substitutions_removes[OF n1, of "[]" c] by (simp add: out_def)
  show "\<not> sublist ''sq_010'' out"
    using apply_substitutions_removes[OF n2, of "[(''ep_01'', ''ep_02'')]" c]
    by (simp add: out_def)
  show "\<not> sublist ''sh_020'' out"
    using apply_substitutions_removes[OF n3,
        of "[(''ep_01'', ''ep_02''), (''sq_010'', ''sq_020'')]" c]
    by (simp add: out_def)
  show "\<not> sublist ''lighting_v003'' out"
    using apply_substitutions_removes[OF n5,
        of "[(''ep_01'', ''ep_02''), (''sq_010'', ''sq_020''), (''sh_020'', ''sh_030''),
             (''lighting_v003.ma'', ''lighting_v001.ma'')]" c]
    by (simp add: out_def)
qed

text \<open>
  C1 (as amended). Let the tokens found in the source path be \<open>ep_01\<close>, \<open>sq_010\<close>,
  \<open>sh_020\<close>, those found in the destination path \<open>ep_02\<close>, \<open>sq_020\<close>, \<open>sh_030\<close>, and
  let the selected file be named \<open>lighting_v003.ma\<close>. A successful run then makes exactly
  one write, after reading the source file: it writes \<open>lighting_v001.ma\<close> in the
  destination folder and changes no other file. The content written has no occurrence of
  \<open>ep_01\<close>, \<open>sq_010\<close>, \<open>sh_020\<close> or \<open>lighting_v003\<close>, and where the source content
  contains \<open>ep_01_sq_010_sh_020_lighting_v003\<close> it contains
  \<open>ep_02_sq_020_sh_030_lighting_v001\<close>. (An occurrence of \<open>_v003\<close> that is not part of
  the file name stays.)
\<close>

theorem C1_end_to_end:
  assumes run: "fst (clone_latest w src dst answer) = Success x y z"
    and src: "find_token ''ep_'' (strip src) = Some ''ep_01''"
      "find_token ''sq_'' (strip src) = Some ''sq_010''"
      "find_token ''sh_'' (strip src) = Some ''sh_020''"
    and dst: "find_token ''ep_'' (strip dst) = Some ''ep_02''"
      "find_token ''sq_'' (strip dst) = Some ''sq_020''"
      "find_token ''sh_'' (strip dst) = Some ''sh_030''"
    and name: "basename x = ''lighting_v003.ma''"
  shows "\<exists>content out ask.
           files w x = Some content \<and>
           y = join (strip dst) ''lighting_v001.ma'' \<and>
           out = apply_substitutions
                   [(''ep_01'', ''ep_02''), (''sq_010'', ''sq_020''), (''sh_020'', ''sh_030''),
                    (''lighting_v003.ma'', ''lighting_v001.ma''),
                    (''lighting_v003'', ''lighting_v001'')] content \<and>
           fst (snd (clone_latest w src dst answer)) =
             [MakeDirs (strip dst)] @ ask @ [ReadFile x, WriteFile y out] \<and>
           (ask = [] \<or> ask = [AskOverwrite ''lighting_v001.ma'']) \<and>
           files (snd (snd (clone_latest w src dst answer))) = (files w)(y \<mapsto> out) \<and>
           \<not> sublist ''ep_01'' out \<and> \<not> sublist ''sq_010'' out \<and>
           \<not> sublist ''sh_020'' out \<and> \<not> sublist ''lighting_v003'' out \<and>
           (sublist ''ep_01_sq_010_sh_020_lighting_v003'' content \<longrightarrow>
              sublist ''ep_02_sq_020_sh_030_lighting_v001'' out)"
proof -
  from clone_latest_Success[OF run] obtain t bb c ask where
    h: "validate_and_select w (strip src) (strip dst) = Inr (t, x)"
       "match_base_version (fst (splitext (basename x))) = Some bb"
       "y = join (strip dst) (bb @ ''_v001.ma'')"
       "files w x = Some c"
       "fst (snd (clone_latest w src dst answer)) =
              [MakeDirs (strip dst)] @ ask @
              [ReadFile x,
               WriteFile y (rewrite_content t (basename x) (bb @ ''_v001.ma'')
                              (fst (splitext (basename x))) bb c)]"
       "ask = [] \<or> ask = [AskOverwrite (bb @ ''_v001.ma'')]"
       "snd (snd (clone_latest w src dst answer)) =
             w\<lparr>isdir := (isdir w)(strip dst := True),
               files := (files w)(y \<mapsto> rewrite_content t (basename x) (bb @ ''_v001.ma'')
                                         (fst (splitext (basename x))) bb c)\<rparr>"
    by blast
  have t: "old_ep t = ''ep_01''" "old_sq t = ''sq_010''" "old_sh t = ''sh_020''"
    "new_ep t = ''ep_02''" "new_sq t = ''sq_020''" "new_sh t = ''sh_030''"
    using validate_and_select_Inr(4-9)[OF h(1)] src dst
    by (simp_all add: find_token_normalized)
  have b: "fst (splitext ''lighting_v003.ma'') = ''lighting_v003''"
    "match_base_version ''lighting_v003'' = Some ''lighting''"
    by code_simp+
  from h(2) have bb: "bb = ''lighting''" by (simp add: name b)
  define out where "out = apply_substitutions
      [(''ep_01'', ''ep_02''), (''sq_010'', ''sq_020''), (''sh_020'', ''sh_030''),
       (''lighting_v003.ma'', ''lighting_v001.ma''), (''lighting_v003'', ''lighting_v001'')] c"
  have r: "rewrite_content t (basename x) (bb @ ''_v001.ma'') (fst (splitext (basename x))) bb c =
           out"
    by (simp add: rewrite_content_substitutions substitutions_def t name b bb out_def)
  have tr: "fst (snd (clone_latest w src dst answer)) =
             [MakeDirs (strip dst)] @ ask @ [ReadFile x, WriteFile y out]"
    using h(5) unfolding r .
  have fs: "files (snd (snd (clone_latest w src dst answer))) = (files w)(y \<mapsto> out)"
    unfolding h(7) r by simp
  have y: "y = join (strip dst) ''lighting_v001.ma''" using h(3) by (simp add: bb)
  have ask: "ask = [] \<or> ask = [AskOverwrite ''lighting_v001.ma'']" using h(6) by (simp add: bb)
  have keep: "sublist ''ep_01_sq_010_sh_020_lighting_v003'' c \<longrightarrow>
              sublist ''ep_02_sq_020_sh_030_lighting_v001'' out"
    unfolding out_def using scenario_keeps_reference by blast
  from h(4) y out_def tr ask fs scenario_removes[OF out_def] keep
  show ?thesis by blast
qed

theorem C1_end_to_end_witness:
  "fst (clone_latest studio ''/show/ep_01/sq_010/sh_020/work'' ''/show/ep_02/sq_020/sh_030/work''
          True) =
     Success ''/show/ep_01/sq_010/sh_020/work/lighting_v003.ma''
       ''/show/ep_02/sq_020/sh_030/work/lighting_v001.ma''
       [(''ep_01'', ''ep_02''), (''sq_010'', ''sq_020''), (''sh_020'', ''sh_030'')] \<and>
   (\<exists>out. files (snd (snd (clone_latest studio ''/show/ep_01/sq_010/sh_020/work''
                             ''/show/ep_02/sq_020/sh_030/work'' True))) =
            (files studio)(''/show/ep_02/sq_020/sh_030/work/lighting_v001.ma'' \<mapsto> out) \<and>
          \<not> sublist ''ep_01'' out \<and> \<not> sublist ''sq_010'' out \<and>
          \<not> sublist ''sh_020'' out \<and> \<not> sublist ''lighting_v003'' out \<and>
          sublist ''ep_02_sq_020_sh_030_lighting_v001'' out)"
proof -
  let ?x = "''/show/ep_01/sq_010/sh_020/work/lighting_v003.ma''"
  let ?y = "''/show/ep_02/sq_020/sh_030/work/lighting_v001.ma''"
  let ?z = "[(''ep_01'', ''ep_02''), (''sq_010'', ''sq_020''), (''sh_020'', ''sh_030'')]"
  let ?run = "clone_latest studio ''/show/ep_01/sq_010/sh_020/work''
                ''/show/ep_02/sq_020/sh_030/work'' True"
  have h: "fst ?run = Success ?x ?y ?z" by code_simp
  have s: "find_token ''ep_'' (strip ''/show/ep_01/sq_010/sh_020/work'') = Some ''ep_01''"
    "find_token ''sq_'' (strip ''/show/ep_01/sq_010/sh_020/work'') = Some ''sq_010''"
    "find_token ''sh_'' (strip ''/show/ep_01/sq_010/sh_020/work'') = Some ''sh_020''"
    by code_simp+
  have d: "find_token ''ep_'' (strip ''/show/ep_02/sq_020/sh_030/work'') = Some ''ep_02''"
    "find_token ''sq_'' (strip ''/show/ep_02/sq_020/sh_030/work'') = Some ''sq_020''"
    "find_token ''sh_'' (strip ''/show/ep_02/sq_020/sh_030/work'') = Some ''sh_030''"
    by code_simp+
  have n: "basename ?x = ''lighting_v003.ma''" by code_simp
  have f: "files studio ?x = Some ''file ep_01_sq_010_sh_020_lighting_v003; cache_v003''"
    by (simp add: studio_def)
  have c: "sublist ''ep_01_sq_010_sh_020_lighting_v003''
             ''file ep_01_sq_010_sh_020_lighting_v003; cache_v003''"
    by code_simp
  from C1_end_to_end[OF h s d n] obtain content out where
    g: "files studio ?x = Some content"
       "files (snd (snd ?run)) = (files studio)(?y \<mapsto> out)"
       "\<not> sublist ''ep_01'' out" "\<not> sublist ''sq_010'' out"
       "\<not> sublist ''sh_020'' out" "\<not> sublist ''lighting_v003'' out"
       "sublist ''ep_01_sq_010_sh_020_lighting_v003'' content \<longrightarrow>
          sublist ''ep_02_sq_020_sh_030_lighting_v001'' out"
    by blast
  from g(1) f have "content = ''file ep_01_sq_010_sh_020_lighting_v003; cache_v003''" by simp
  with g(7) c have "sublist ''ep_02_sq_020_sh_030_lighting_v001'' out" by simp
  with h g(2-6) show ?thesis by blast
qed

text \<open>
  The claim as written, no remaining \<open>_v003\<close>, fails on the scenario itself when the
  file holds another text ending in \<open>_v003\<close>: only the file name is given version
  \<open>001\<close>.
\<close>

theorem C1_counterexample:
  "fst (clone_latest studio ''/show/ep_01/sq_010/sh_020/work'' ''/show/ep_02/sq_020/sh_030/work''
          True) =
     Success ''/show/ep_01/sq_010/sh_020/work/lighting_v003.ma''
       ''/show/ep_02/sq_020/sh_030/work/lighting_v001.ma''
       [(''ep_01'', ''ep_02''), (''sq_010'', ''sq_020''), (''sh_020'', ''sh_030'')] \<and>
   files studio ''/show/ep_01/sq_010/sh_020/work/lighting_v003.ma'' =
     Some ''file ep_01_sq_010_sh_020_lighting_v003; cache_v003'' \<and>
   sublist ''ep_01_sq_010_sh_020_lighting_v003''
     ''file ep_01_sq_010_sh_020_lighting_v003; cache_v003'' \<and>
   files (snd (snd (clone_latest studio ''/show/ep_01/sq_010/sh_020/work''
                      ''/show/ep_02/sq_020/sh_030/work'' True)))
     ''/show/ep_02/sq_020/sh_030/work/lighting_v001.ma'' =
     Some ''file ep_02_sq_020_sh_030_lighting_v001; cache_v003'' \<and>
   sublist ''_v003'' ''file ep_02_sq_020_sh_030_lighting_v001; cache_v003''"
  by code_simp

end
